theory Spec2Isabelle
  imports Main "HOL-Library.AList"
begin

section \<open>The data model of \<open>tf_pwa/data.py\<close>\<close>

text \<open>
  The module works on nested combinations of Python \<open>dict\<close>, \<open>list\<close> and \<open>tuple\<close> whose
  terminal values are arrays. A dict is insertion ordered and has distinct keys; it is
  modelled as an association list. Keys are strings (particle and decay names), integers
  (list positions appear as keys after flattening) or objects that carry a string form
  (\<open>BaseParticle\<close>, \<open>BaseDecay\<close>): \<open>KObj n s\<close> is the object with identity \<open>n\<close> whose \<open>str\<close>
  is \<open>s\<close>.
\<close>

datatype key = KStr string | KInt int | KObj nat string

datatype 'a tree =
    PyDict "(key \<times> 'a tree) list"
  | PyList "'a tree list"
  | PyTuple "'a tree list"
  | Leaf 'a

text \<open>
  The exceptions the module can end with. \<open>AssertionError\<close> is what the \<open>assert\<close>
  statements of \<open>data_merge\<close> and \<open>data_index\<close> raise, \<open>ValueError\<close> is raised by
  \<open>data_index\<close> for a key that is not found and by \<open>range\<close> for a zero step,
  \<open>UnsupportedAxis\<close> is the \<open>Exception\<close> of \<open>_data_split\<close>, \<open>IndexError\<close> and \<open>KeyError\<close>
  come from subscripting, \<open>LeafOperationError\<close> stands for an error of the array
  library, \<open>RecursionError\<close> is raised when the calls nest deeper than the interpreter
  allows, and \<open>TypeError\<close> is what an operation answers to a value it cannot work on.
\<close>

datatype error =
    AssertionError
  | ValueError
  | IndexError
  | KeyError
  | UnsupportedAxis
  | LeafOperationError
  | RecursionError
  | TypeError

text \<open>A dict is well formed when its keys are distinct, at every level.\<close>

fun wf_tree :: "'a tree \<Rightarrow> bool" where
  "wf_tree (PyDict kvs) = (distinct (map fst kvs) \<and> list_all (\<lambda>kv. wf_tree (snd kv)) kvs)"
| "wf_tree (PyList xs) = list_all wf_tree xs"
| "wf_tree (PyTuple xs) = list_all wf_tree xs"
| "wf_tree (Leaf a) = True"

section \<open>\<open>data_map\<close>\<close>

text \<open>
  \<open>fun\<close> is an arbitrary Python callable and may have an effect (\<open>data_shape\<close> passes a
  closure that appends to a list), so the leaf function takes and returns a state, and
  the containers are traversed in the order of the comprehensions: the items of a dict in
  insertion order, the elements of a list or tuple from the front.
\<close>

fun map_state :: "('x \<Rightarrow> 's \<Rightarrow> 'y \<times> 's) \<Rightarrow> 'x list \<Rightarrow> 's \<Rightarrow> 'y list \<times> 's" where
  "map_state f [] s = ([], s)"
| "map_state f (x # xs) s =
     (case f x s of (y, s') \<Rightarrow> (case map_state f xs s' of (ys, s'') \<Rightarrow> (y # ys, s'')))"

lemma map_state_cong [fundef_cong]:
  "xs = ys \<Longrightarrow> s = t \<Longrightarrow> (\<And>x u. x \<in> set ys \<Longrightarrow> f x u = g x u) \<Longrightarrow>
   map_state f xs s = map_state g ys t"
  by (induction ys arbitrary: xs s t) (auto split: prod.splits)

fun data_map :: "('a \<Rightarrow> 's \<Rightarrow> 'b \<times> 's) \<Rightarrow> 'a tree \<Rightarrow> 's \<Rightarrow> 'b tree \<times> 's" where
  "data_map f (PyDict kvs) s =
     (case map_state (\<lambda>kv u. case data_map f (snd kv) u of (v', u') \<Rightarrow> ((fst kv, v'), u')) kvs s
      of (kvs', s') \<Rightarrow> (PyDict kvs', s'))"
| "data_map f (PyList xs) s =
     (case map_state (data_map f) xs s of (ys, s') \<Rightarrow> (PyList ys, s'))"
| "data_map f (PyTuple xs) s =
     (case map_state (data_map f) xs s of (ys, s') \<Rightarrow> (PyTuple ys, s'))"
| "data_map f (Leaf a) s = (case f a s of (b, s') \<Rightarrow> (Leaf b, s'))"


section \<open>Python built-ins used by the module\<close>

text \<open>
  Subscripting a list or tuple with an integer: a negative index counts from the end, an
  index out of range raises \<open>IndexError\<close>.
\<close>

definition py_getitem :: "'x list \<Rightarrow> int \<Rightarrow> error + 'x" where
  "py_getitem xs i =
     (let n = int (length xs); j = (if i < 0 then i + n else i)
      in if 0 \<le> j \<and> j < n then Inr (xs ! nat j) else Inl IndexError)"

text \<open>The slice \<open>xs[i:j]\<close> for \<open>0 \<le> i\<close> and \<open>0 \<le> j\<close>.\<close>

definition py_slice :: "nat \<Rightarrow> nat \<Rightarrow> 'x list \<Rightarrow> 'x list" where
  "py_slice i j xs = take (j - i) (drop i xs)"

text \<open>
  \<open>range(0, n, step)\<close>: the multiples of \<open>step\<close> below \<open>n\<close>. A zero step raises
  \<open>ValueError\<close>, a negative step gives the empty range.
\<close>

function range_from :: "nat \<Rightarrow> nat \<Rightarrow> nat \<Rightarrow> nat list" where
  "range_from i n step = (if 0 < step \<and> i < n then i # range_from (i + step) n step else [])"
  by pat_completeness auto
termination
  by (relation "measure (\<lambda>(i, n, step). n - i)") auto

declare range_from.simps [simp del]

definition py_range :: "nat \<Rightarrow> int \<Rightarrow> error + nat list" where
  "py_range n step = (if step = 0 then Inl ValueError else Inr (range_from 0 n (nat step)))"

text \<open>
  \<open>zip(*xss)\<close> on lists: the rows of the transposition, as many as the shortest list has
  elements, and none when there is no list at all.
\<close>

function zip_star :: "'x list list \<Rightarrow> 'x list list" where
  "zip_star xss =
     (if xss = [] \<or> list_ex (\<lambda>xs. xs = []) xss then []
      else map hd xss # zip_star (map tl xss))"
  by pat_completeness auto
termination
  by (relation "measure (\<lambda>xss. length (hd xss))") (auto simp: list_ex_iff neq_Nil_conv)

declare zip_star.simps [simp del]

text \<open>
  \<open>str\<close> of a key. An integer is printed in decimal, an object by its string form.
\<close>

function str_nat :: "nat \<Rightarrow> string" where
  "str_nat n =
     (if n < 10 then [''0123456789'' ! n]
      else str_nat (n div 10) @ [''0123456789'' ! (n mod 10)])"
  by pat_completeness auto
termination
  by (relation "measure id") auto

declare str_nat.simps [simp del]

definition str_int :: "int \<Rightarrow> string" where
  "str_int i = (if i < 0 then CHR ''-'' # str_nat (nat (- i)) else str_nat (nat i))"

fun py_str :: "key \<Rightarrow> string" where
  "py_str (KStr s) = s"
| "py_str (KInt i) = str_int i"
| "py_str (KObj n s) = s"

text \<open>The first error of a sequence of results, or all the values.\<close>

fun collect :: "(error + 'x) list \<Rightarrow> error + 'x list" where
  "collect [] = Inr []"
| "collect (r # rs) =
     (case r of Inl e \<Rightarrow> Inl e
      | Inr x \<Rightarrow> (case collect rs of Inl e \<Rightarrow> Inl e | Inr xs \<Rightarrow> Inr (x # xs)))"

section \<open>Generators\<close>

text \<open>
  What a consumer sees of a finite generator: the values it yields, and how it ends,
  with \<open>StopIteration\<close> (\<open>None\<close>) or with an exception. The body of a generator function
  runs on the first \<open>next\<close>, so an exception raised before the first \<open>yield\<close> is a
  generator that yields nothing and ends with that exception.
\<close>

type_synonym 'x gen = "'x list \<times> error option"

definition map_gen :: "('x \<Rightarrow> 'y) \<Rightarrow> 'x gen \<Rightarrow> 'y gen" where
  "map_gen f g = (map f (fst g), snd g)"

text \<open>\<open>list(g)\<close>: the yielded values, unless the generator ends with an exception.\<close>

definition py_list :: "'x gen \<Rightarrow> error + 'x list" where
  "py_list g = (case snd g of None \<Rightarrow> Inr (fst g) | Some e \<Rightarrow> Inl e)"

text \<open>
  \<open>zip\<close> over generators asks each of them in turn for its next value. The first one, in
  argument order, that has no value left ends the \<open>zip\<close> the way it ends itself; \<open>zip()\<close>
  without arguments yields nothing.
\<close>

fun first_stop :: "'x gen list \<Rightarrow> error option option" where
  "first_stop [] = None"
| "first_stop (g # gs) = (if fst g = [] then Some (snd g) else first_stop gs)"

lemma first_stop_None: "first_stop gs = None \<Longrightarrow> g \<in> set gs \<Longrightarrow> fst g \<noteq> []"
  by (induction gs) (auto split: if_splits)

function zip_gens :: "'x gen list \<Rightarrow> 'x list gen" where
  "zip_gens gs =
     (if gs = [] then ([], None)
      else case first_stop gs of
             Some e \<Rightarrow> ([], e)
           | None \<Rightarrow>
               (case zip_gens (map (\<lambda>g. (tl (fst g), snd g)) gs) of
                  (rows, e) \<Rightarrow> (map (\<lambda>g. hd (fst g)) gs # rows, e)))"
  by pat_completeness auto
termination
proof (relation "measure (\<lambda>gs. length (fst (hd gs)))")
  show "wf (measure (\<lambda>gs. length (fst (hd gs))))" by simp
next
  fix gs :: "'x gen list"
  assume "gs \<noteq> []" and "first_stop gs = None"
  then have "fst (hd gs) \<noteq> []"
    by (intro first_stop_None [of gs]) auto
  with \<open>gs \<noteq> []\<close> show "(map (\<lambda>g. (tl (fst g), snd g)) gs, gs) \<in> measure (\<lambda>gs. length (fst (hd gs)))"
    by (cases gs) auto
qed

declare zip_gens.simps [simp del]

section \<open>The array library\<close>

text \<open>
  The leaves are arrays of NumPy or TensorFlow, which are not part of the module. An array
  is modelled by its nesting: a scalar, or the sequence of its sub-arrays along the first
  axis. An array with no element along the first axis carries no further axes.
\<close>

datatype 'a ndarray = Scalar 'a | Array "'a ndarray list"

fun shape :: "'a ndarray \<Rightarrow> nat list" where
  "shape (Scalar x) = []"
| "shape (Array []) = [0]"
| "shape (Array (x # xs)) = Suc (length xs) # shape x"

text \<open>An array is rectangular: the sub-arrays along an axis all have one shape.\<close>

fun regular :: "'a ndarray \<Rightarrow> bool" where
  "regular (Scalar x) = True"
| "regular (Array xs) = list_all (\<lambda>x. regular x \<and> shape x = shape (hd xs)) xs"

fun elems :: "'a ndarray \<Rightarrow> 'a ndarray list" where
  "elems (Scalar x) = []"
| "elems (Array xs) = xs"

text \<open>
  \<open>dat[i:j]\<close> and \<open>dat[..., i:j]\<close>. Both are applied only after \<open>dat.shape[axis]\<close> has been
  read, that is to an array with at least one axis.
\<close>

fun slice_first :: "nat \<Rightarrow> nat \<Rightarrow> 'a ndarray \<Rightarrow> 'a ndarray" where
  "slice_first i j (Scalar x) = Scalar x"
| "slice_first i j (Array xs) = Array (py_slice i j xs)"

fun slice_last :: "nat \<Rightarrow> nat \<Rightarrow> 'a ndarray \<Rightarrow> 'a ndarray" where
  "slice_last i j (Scalar x) = Scalar x"
| "slice_last i j (Array xs) =
     (if length (shape (Array xs)) = 1 then Array (py_slice i j xs)
      else Array (map (slice_last i j) xs))"

text \<open>
  Modelled from the spec: the N-ary concatenation \<open>concat(leaves, axis)\<close> of the array
  library (\<open>tf.concat\<close>). The arrays have one rank, \<open>axis\<close> names one of their axes
  (negative values count from the last axis) and the shapes agree off that axis;
  anything else is an error of the library.
\<close>

fun concat_axis :: "nat \<Rightarrow> 'a ndarray list \<Rightarrow> 'a ndarray" where
  "concat_axis 0 arrs = Array (concat (map elems arrs))"
| "concat_axis (Suc k) arrs = Array (map (concat_axis k) (zip_star (map elems arrs)))"

definition drop_axis :: "nat \<Rightarrow> nat list \<Rightarrow> nat list" where
  "drop_axis k s = take k s @ drop (Suc k) s"

definition tf_concat :: "int \<Rightarrow> 'a ndarray list \<Rightarrow> error + 'a ndarray" where
  "tf_concat axis arrs =
     (case arrs of
        [] \<Rightarrow> Inl LeafOperationError
      | a # _ \<Rightarrow>
          (let r = int (length (shape a)); k = (if axis < 0 then axis + r else axis)
           in if 0 \<le> k \<and> k < r \<and>
                 list_all (\<lambda>b. length (shape b) = length (shape a) \<and>
                               drop_axis (nat k) (shape b) = drop_axis (nat k) (shape a)) arrs
              then Inr (concat_axis (nat k) arrs)
              else Inl LeafOperationError))"


section \<open>\<open>_data_split\<close>, \<open>data_generator\<close> and \<open>data_split\<close>\<close>

text \<open>
  \<open>_data_split\<close> (here \<open>leaf_data_split\<close>, a name cannot start with an underscore) reads
  \<open>dat.shape[axis]\<close> first, then yields the slices along axis \<open>0\<close> or \<open>-1\<close>; any other
  axis raises.
\<close>

definition leaf_data_split :: "'a ndarray \<Rightarrow> int \<Rightarrow> int \<Rightarrow> 'a ndarray gen" where
  "leaf_data_split dat batch_size axis =
     (case py_getitem (shape dat) axis of
        Inl e \<Rightarrow> ([], Some e)
      | Inr data_size \<Rightarrow>
          if axis = 0 then
            (case py_range data_size batch_size of
               Inl e \<Rightarrow> ([], Some e)
             | Inr starts \<Rightarrow>
                 (map (\<lambda>i. slice_first i (min (i + nat batch_size) data_size) dat) starts, None))
          else if axis = - 1 then
            (case py_range data_size batch_size of
               Inl e \<Rightarrow> ([], Some e)
             | Inr starts \<Rightarrow>
                 (map (\<lambda>i. slice_last i (min (i + nat batch_size) data_size) dat) starts, None))
          else ([], Some UnsupportedAxis))"

text \<open>
  \<open>data_generator\<close>: the generator of the leaf function at a leaf, and at a container the
  \<open>zip\<close> of the generators of its children, each row rebuilt as a container of the same
  kind (\<open>dict(zip(ks, s_data))\<close> with the keys of the dict, \<open>list(s_data)\<close>, \<open>s_data\<close>).
\<close>

fun data_generator :: "('a \<Rightarrow> 'b gen) \<Rightarrow> 'a tree \<Rightarrow> 'b tree gen" where
  "data_generator f (PyDict kvs) =
     map_gen (\<lambda>s_data. PyDict (zip (map fst kvs) s_data))
       (zip_gens (map (\<lambda>kv. data_generator f (snd kv)) kvs))"
| "data_generator f (PyList xs) = map_gen PyList (zip_gens (map (data_generator f) xs))"
| "data_generator f (PyTuple xs) = map_gen PyTuple (zip_gens (map (data_generator f) xs))"
| "data_generator f (Leaf a) = map_gen Leaf (f a)"

definition data_split :: "'a ndarray tree \<Rightarrow> int \<Rightarrow> int \<Rightarrow> 'a ndarray tree gen" where
  "data_split data batch_size axis =
     data_generator (\<lambda>dat. leaf_data_split dat batch_size axis) data"

section \<open>\<open>data_merge\<close>\<close>

fun is_dict :: "'a tree \<Rightarrow> bool" where
  "is_dict (PyDict kvs) = True"
| "is_dict _ = False"

fun is_list :: "'a tree \<Rightarrow> bool" where
  "is_list (PyList xs) = True"
| "is_list _ = False"

fun is_tuple :: "'a tree \<Rightarrow> bool" where
  "is_tuple (PyTuple xs) = True"
| "is_tuple _ = False"

fun is_leaf :: "'a tree \<Rightarrow> bool" where
  "is_leaf (Leaf a) = True"
| "is_leaf _ = False"

fun dict_items :: "'a tree \<Rightarrow> (key \<times> 'a tree) list" where
  "dict_items (PyDict kvs) = kvs"
| "dict_items _ = []"

fun elements :: "'a tree \<Rightarrow> 'a tree list" where
  "elements (PyList xs) = xs"
| "elements (PyTuple xs) = xs"
| "elements _ = []"

fun leaf_values :: "'a tree list \<Rightarrow> 'a list" where
  "leaf_values [] = []"
| "leaf_values (Leaf a # ts) = a # leaf_values ts"
| "leaf_values (_ # ts) = leaf_values ts"

text \<open>\<open>data_i[i]\<close> for a key \<open>i\<close> of the dict \<open>data_i\<close>.\<close>

definition dict_get :: "'a tree \<Rightarrow> key \<Rightarrow> 'a tree" where
  "dict_get t i = the (map_of (dict_items t) i)"

lemma size_map_of:
  "map_of kvs k = Some v \<Longrightarrow> size v < Suc (size_list (size_prod (\<lambda>_. 0) size) kvs)"
  by (induction kvs) (auto split: if_splits)

lemma zip_star_hd: "col \<in> set (zip_star (xs # xss)) \<Longrightarrow> hd col \<in> set xs"
proof (induction "xs # xss" arbitrary: xs xss rule: zip_star.induct)
  case 1
  from "1.prems" have ne: "xs \<noteq> []" "\<not> list_ex (\<lambda>ys. ys = []) xss"
    by (auto simp: zip_star.simps [of "xs # xss"] split: if_splits)
  from "1.prems" ne have "col = hd xs # map hd xss \<or> col \<in> set (zip_star (tl xs # map tl xss))"
    by (simp add: zip_star.simps [of "xs # xss"])
  then show ?case
  proof
    assume "col = hd xs # map hd xss"
    with ne show ?thesis by simp
  next
    assume "col \<in> set (zip_star (tl xs # map tl xss))"
    with "1.hyps" [of "tl xs" "map tl xss"] ne have "hd col \<in> set (tl xs)"
      by simp
    then show ?thesis by (meson list.set_sel(2) ne(1))
  qed
qed

text \<open>
  The kind of the first tree selects the branch. The recursive calls are written without
  \<open>axis\<close>, so below the top level the default \<open>0\<close> is used. The keys of a merged dict are
  iterated as a Python set, in no specified order; the model takes them in the order of
  the first dict. \<open>cat\<close> is the concatenation of the array library (\<open>tf.concat\<close>); it
  is handed the leaves, and a container among them is an error of the library.
\<close>

function data_merge :: "(int \<Rightarrow> 'a list \<Rightarrow> error + 'a) \<Rightarrow> int \<Rightarrow> 'a tree list \<Rightarrow> error + 'a tree" where
  "data_merge cat axis [] = Inl IndexError"
| "data_merge cat axis (PyDict kvs # rest) =
     (if \<not> list_all is_dict rest then Inl AssertionError
      else
        let idx = filter (\<lambda>k. list_all (\<lambda>t. k \<in> set (map fst (dict_items t))) rest) (map fst kvs)
        in map_sum id PyDict
             (collect (map (\<lambda>i. map_sum id (Pair i)
                                  (data_merge cat 0 (map (\<lambda>data_i. dict_get data_i i) (PyDict kvs # rest))))
                           (remdups idx))))"
| "data_merge cat axis (PyList xs # rest) =
     (if \<not> list_all is_list rest then Inl AssertionError
      else map_sum id PyList
             (collect (map (data_merge cat 0) (zip_star (xs # map elements rest)))))"
| "data_merge cat axis (PyTuple xs # rest) =
     (if \<not> list_all is_tuple rest then Inl AssertionError
      else map_sum id PyTuple
             (collect (map (data_merge cat 0) (zip_star (xs # map elements rest)))))"
| "data_merge cat axis (Leaf a # rest) =
     (if list_all is_leaf rest then map_sum id Leaf (cat axis (a # leaf_values rest))
      else Inl LeafOperationError)"
  by pat_completeness auto
termination
proof (relation "measure (\<lambda>(cat, axis, ts). size (hd ts))", goal_cases)
  case 1
  show ?case by simp
next
  case (2 cat axis kvs rest idx i)
  then have "i \<in> set (map fst kvs)" by auto
  then obtain v where "map_of kvs i = Some v"
    by (metis map_of_eq_None_iff not_None_eq set_map)
  then show ?case
    using size_map_of [of kvs i v] by (simp add: dict_get_def)
next
  case (3 cat axis xs rest col)
  then have "hd col \<in> set xs" by (simp add: zip_star_hd)
  then show ?case
    using size_list_estimation' [of "hd col" xs "size (hd col)" size] by simp
next
  case (4 cat axis xs rest col)
  then have "hd col \<in> set xs" by (simp add: zip_star_hd)
  then show ?case
    using size_list_estimation' [of "hd col" xs "size (hd col)" size] by simp
qed


section \<open>\<open>flatten_dict_data\<close>\<close>

text \<open>
  \<open>dict_gen\<close> and \<open>list_gen\<close>: the items of a dict, and the elements of a list or tuple
  paired with their positions.
\<close>

definition list_gen :: "'x list \<Rightarrow> (key \<times> 'x) list" where
  "list_gen xs = map (\<lambda>(n, x). (KInt (int n), x)) (List.enumerate 0 xs)"

fun gen_items :: "'a tree \<Rightarrow> (key \<times> 'a tree) list" where
  "gen_items (PyDict kvs) = kvs"
| "gen_items (PyList xs) = list_gen xs"
| "gen_items (PyTuple xs) = list_gen xs"
| "gen_items (Leaf a) = []"

text \<open>The default formatter \<open>"{}/{}".format\<close>.\<close>

definition default_fun :: "key \<Rightarrow> key \<Rightarrow> key" where
  "default_fun i j = KStr (py_str i @ ''/'' @ py_str j)"

text \<open>
  The body of the loop over the items of \<open>data\<close>, once \<open>tmp\<close> is known: an assignment
  \<open>ret[k] = v\<close> replaces the value of a key that is present and appends a new key.
\<close>

definition flatten_put ::
  "(key \<Rightarrow> key \<Rightarrow> key) \<Rightarrow> (key \<times> 'a tree) list \<Rightarrow> key \<Rightarrow> 'a tree \<Rightarrow> (key \<times> 'a tree) list" where
  "flatten_put f ret i tmp =
     (if is_leaf tmp then AList.update i tmp ret
      else foldl (\<lambda>r (j, tmp_j). AList.update (f i j) tmp_j r) ret (gen_items tmp))"

lemma size_gen_items: "(i, data_i) \<in> set (gen_items data) \<Longrightarrow> size data_i < size data"
proof (cases data)
  case (PyDict kvs)
  assume "(i, data_i) \<in> set (gen_items data)"
  with PyDict have "(i, data_i) \<in> set kvs" by simp
  then have "size_prod (\<lambda>_. 0) size (i, data_i) \<le> size_list (size_prod (\<lambda>_. 0) size) kvs"
    by (rule size_list_estimation') simp
  with PyDict show ?thesis by simp
next
  case (PyList xs)
  assume "(i, data_i) \<in> set (gen_items data)"
  with PyList have "data_i \<in> set xs"
    by (auto simp: list_gen_def in_set_enumerate_eq)
  then have "size data_i \<le> size_list size xs"
    by (rule size_list_estimation') simp
  with PyList show ?thesis by simp
next
  case (PyTuple xs)
  assume "(i, data_i) \<in> set (gen_items data)"
  with PyTuple have "data_i \<in> set xs"
    by (auto simp: list_gen_def in_set_enumerate_eq)
  then have "size data_i \<le> size_list size xs"
    by (rule size_list_estimation') simp
  with PyTuple show ?thesis by simp
next
  case (Leaf a)
  assume "(i, data_i) \<in> set (gen_items data)"
  with Leaf show ?thesis by simp
qed

text \<open>
  The recursive call is \<open>flatten_dict_data(data_i)\<close>: it does not hand \<open>fun\<close> down, so the
  levels below the first are named by the default formatter.
\<close>

function flatten_dict_data :: "(key \<Rightarrow> key \<Rightarrow> key) \<Rightarrow> 'a tree \<Rightarrow> 'a tree" where
  "flatten_dict_data f data =
     (if is_leaf data then data
      else PyDict (foldl (\<lambda>ret (i, data_i). flatten_put f ret i (flatten_dict_data default_fun data_i))
                     [] (gen_items data)))"
  by pat_completeness auto
termination
  by (relation "measure (\<lambda>(f, data). size data)") (auto simp: size_gen_items)

declare flatten_dict_data.simps [simp del]

section \<open>\<open>data_index\<close>\<close>

text \<open>
  \<open>key\<close> is one key, or a list or tuple of keys. Subscripting a leaf with an integer is
  an operation of the array library, \<open>leaf_getitem\<close>.
\<close>

datatype index = Single key | Path "key list"

fun idx :: "('a \<Rightarrow> int \<Rightarrow> error + 'a) \<Rightarrow> 'a tree \<Rightarrow> key \<Rightarrow> error + 'a tree" where
  "idx leaf_getitem (PyDict kvs) (KInt n) =
     (case map_of kvs (KInt n) of Some v \<Rightarrow> Inr v | None \<Rightarrow> Inl KeyError)"
| "idx leaf_getitem (PyList xs) (KInt n) = py_getitem xs n"
| "idx leaf_getitem (PyTuple xs) (KInt n) = py_getitem xs n"
| "idx leaf_getitem (Leaf a) (KInt n) = map_sum id Leaf (leaf_getitem a n)"
| "idx leaf_getitem (PyDict kvs) i =
     (case map_of kvs i of
        Some v \<Rightarrow> Inr v
      | None \<Rightarrow>
          (case find (\<lambda>kv. py_str (fst kv) = py_str i) kvs of
             Some kv \<Rightarrow> Inr (snd kv)
           | None \<Rightarrow> Inl ValueError))"
| "idx leaf_getitem data i = Inl AssertionError"

fun path_length :: "index \<Rightarrow> nat" where
  "path_length (Path ks) = length ks"
| "path_length (Single k) = 0"

function data_index :: "('a \<Rightarrow> int \<Rightarrow> error + 'a) \<Rightarrow> 'a tree \<Rightarrow> index \<Rightarrow> error + 'a tree" where
  "data_index leaf_getitem data (Path []) = Inl IndexError"
| "data_index leaf_getitem data (Path [k]) = idx leaf_getitem data k"
| "data_index leaf_getitem data (Path (k # k' # ks)) =
     (case idx leaf_getitem data k of
        Inl e \<Rightarrow> Inl e
      | Inr d \<Rightarrow> data_index leaf_getitem d (Path (k' # ks)))"
| "data_index leaf_getitem data (Single k) = idx leaf_getitem data k"
  by pat_completeness auto
termination
  by (relation "measure (\<lambda>(leaf_getitem, data, key). path_length key)") auto

section \<open>The module on a store of objects\<close>

text \<open>
  Python passes references. To speak about mutation, the containers and arrays are
  objects in a store, a reference is the position of its object, and creating an object
  appends it to the store. A dict or list that the code fills step by step (\<open>ret = {}\<close>,
  then \<open>ret[k] = v\<close>) is created empty and then updated in the store. The nesting of the
  calls is bounded by the recursion limit of the interpreter, \<open>depth\<close>; the objects of a
  store may refer to each other in a cycle, and then the calls end with \<open>RecursionError\<close>.
\<close>

type_synonym addr = nat

datatype 'a obj =
    ODict "(key \<times> addr) list"
  | OList "addr list"
  | OTuple "addr list"
  | OArray 'a

type_synonym 'a store = "'a obj list"

definition alloc :: "'a obj \<Rightarrow> 'a store \<Rightarrow> addr \<times> 'a store" where
  "alloc ob h = (length h, h @ [ob])"


text \<open>
  The object of a reference. Every reference of a program is one of an object of the
  store; for a position outside the store the functions below answer with \<open>TypeError\<close>,
  as for a value that is no tree.
\<close>

definition deref :: "'a store \<Rightarrow> addr \<Rightarrow> 'a obj option" where
  "deref h a = (if a < length h then Some (h ! a) else None)"






definition is_array_at :: "'a store \<Rightarrow> addr \<Rightarrow> bool" where
  "is_array_at h a = (case deref h a of Some (OArray x) \<Rightarrow> True | _ \<Rightarrow> False)"




















text \<open>
  The operations of the array library on the store, for the arrays modelled above:
  concatenation and the subscript \<open>dat[n]\<close>. Each of them returns a new array.
\<close>

fun array_values :: "'a store \<Rightarrow> addr list \<Rightarrow> 'a list option" where
  "array_values h [] = Some []"
| "array_values h (a # as) =
     (case deref h a of
        Some (OArray x) \<Rightarrow> map_option (Cons x) (array_values h as)
      | _ \<Rightarrow> None)"

definition tf_concat_s ::
  "int \<Rightarrow> addr list \<Rightarrow> 'a ndarray store \<Rightarrow> (error + addr) \<times> 'a ndarray store" where
  "tf_concat_s axis data h =
     (case array_values h data of
        None \<Rightarrow> (Inl LeafOperationError, h)
      | Some arrs \<Rightarrow>
          (case tf_concat axis arrs of
             Inl e \<Rightarrow> (Inl e, h)
           | Inr y \<Rightarrow> (case alloc (OArray y) h of (r, h') \<Rightarrow> (Inr r, h'))))"


section \<open>Notions used to state the properties\<close>

text \<open>
  Two trees have the same structure when they have the same kind of node at every place,
  the same keys in the same order and the same numbers of elements.
\<close>

fun same_structure :: "'a tree \<Rightarrow> 'b tree \<Rightarrow> bool" where
  "same_structure (PyDict kvs) (PyDict kvs') =
     (map fst kvs = map fst kvs' \<and>
      list_all2 (\<lambda>kv kv'. same_structure (snd kv) (snd kv')) kvs kvs')"
| "same_structure (PyList xs) (PyList ys) = list_all2 same_structure xs ys"
| "same_structure (PyTuple xs) (PyTuple ys) = list_all2 same_structure xs ys"
| "same_structure (Leaf a) (Leaf b) = True"
| "same_structure _ _ = False"

text \<open>The leaves of a tree, in the order of traversal.\<close>

fun leaves :: "'a tree \<Rightarrow> 'a list" where
  "leaves (PyDict kvs) = concat (map (\<lambda>kv. leaves (snd kv)) kvs)"
| "leaves (PyList xs) = concat (map leaves xs)"
| "leaves (PyTuple xs) = concat (map leaves xs)"
| "leaves (Leaf a) = [a]"

text \<open>
  A place in a tree is a sequence of steps, a key into a dict or a position into a list
  or tuple; \<open>leaf_at t p\<close> is the leaf at place \<open>p\<close>, if there is one.
\<close>

datatype step = Key key | Pos nat

fun leaf_at :: "'a tree \<Rightarrow> step list \<Rightarrow> 'a option" where
  "leaf_at (Leaf a) [] = Some a"
| "leaf_at (PyDict kvs) (Key k # p) =
     (case map_of kvs k of None \<Rightarrow> None | Some v \<Rightarrow> leaf_at v p)"
| "leaf_at (PyList xs) (Pos i # p) = (if i < length xs then leaf_at (xs ! i) p else None)"
| "leaf_at (PyTuple xs) (Pos i # p) = (if i < length xs then leaf_at (xs ! i) p else None)"
| "leaf_at _ _ = None"

text \<open>
  A leaf function that records its calls: it applies \<open>f\<close> and appends its argument to the
  list of calls made so far.
\<close>

definition traced :: "('a \<Rightarrow> 'b) \<Rightarrow> 'a \<Rightarrow> 'a list \<Rightarrow> 'b \<times> 'a list" where
  "traced f a calls = (f a, calls @ [a])"

text \<open>The keys of a dict, and the keys that are Python integers.\<close>

definition keys_of :: "(key \<times> 'v) list \<Rightarrow> key set" where
  "keys_of kvs = fst ` set kvs"

fun is_int_key :: "key \<Rightarrow> bool" where
  "is_int_key (KInt n) = True"
| "is_int_key _ = False"

text \<open>
  The keys that every one of the dicts has, and the length of the shortest of the lists
  or tuples.
\<close>

definition common_keys :: "'a tree list \<Rightarrow> key set" where
  "common_keys ts = (\<Inter>t \<in> set ts. keys_of (dict_items t))"

definition shortest :: "'a tree list \<Rightarrow> nat" where
  "shortest ts = Min (set (map (\<lambda>t. length (elements t)) ts))"

text \<open>No dict, list or tuple of the tree is empty.\<close>

fun nonempty_containers :: "'a tree \<Rightarrow> bool" where
  "nonempty_containers (PyDict kvs) = (kvs \<noteq> [] \<and> list_all (\<lambda>kv. nonempty_containers (snd kv)) kvs)"
| "nonempty_containers (PyList xs) = (xs \<noteq> [] \<and> list_all nonempty_containers xs)"
| "nonempty_containers (PyTuple xs) = (xs \<noteq> [] \<and> list_all nonempty_containers xs)"
| "nonempty_containers (Leaf a) = True"

text \<open>
  An array with \<open>n\<close> entries along its first axis, the batch axis, that is rectangular.
\<close>

fun has_extent :: "nat \<Rightarrow> 'a ndarray \<Rightarrow> bool" where
  "has_extent n (Scalar x) = False"
| "has_extent n (Array xs) = (length xs = n \<and> regular (Array xs))"

text \<open>An array with a first axis.\<close>

fun has_batch_axis :: "'a ndarray \<Rightarrow> bool" where
  "has_batch_axis (Scalar x) = False"
| "has_batch_axis (Array xs) = True"

text \<open>The number of slices a leaf yields for a batch size, along the first axis.\<close>

definition slice_count :: "int \<Rightarrow> 'a ndarray \<Rightarrow> nat" where
  "slice_count batch_size a = length (fst (leaf_data_split a batch_size 0))"

text \<open>
  The number of sub-trees a tree yields when each leaf \<open>a\<close> yields \<open>c a\<close> values: the
  least number among the children of a container, and none for an empty container.
\<close>

fun batch_count :: "('a \<Rightarrow> nat) \<Rightarrow> 'a tree \<Rightarrow> nat" where
  "batch_count c (PyDict kvs) =
     (if kvs = [] then 0 else Min (set (map (\<lambda>kv. batch_count c (snd kv)) kvs)))"
| "batch_count c (PyList xs) = (if xs = [] then 0 else Min (set (map (batch_count c) xs)))"
| "batch_count c (PyTuple xs) = (if xs = [] then 0 else Min (set (map (batch_count c) xs)))"
| "batch_count c (Leaf a) = c a"












section \<open>\<open>data_map\<close> rebuilds the tree and calls the leaf function once per leaf\<close>

lemma map_state_traced:
  "(\<And>x s. x \<in> set xs \<Longrightarrow> g x s = (h x, s @ l x)) \<Longrightarrow>
   map_state g xs s = (map h xs, s @ concat (map l xs))"
  by (induction xs arbitrary: s) auto

lemma data_map_traced:
  "data_map (traced f) t calls = (map_tree f t, calls @ leaves t)"
proof (induction t arbitrary: calls)
  case (PyDict kvs)
  have "map_state (\<lambda>kv u. case data_map (traced f) (snd kv) u of (v', u') \<Rightarrow> ((fst kv, v'), u')) kvs calls
        = (map (\<lambda>kv. (fst kv, map_tree f (snd kv))) kvs, calls @ concat (map (\<lambda>kv. leaves (snd kv)) kvs))"
    by (rule map_state_traced) (use PyDict in \<open>auto simp: snds.simps\<close>)
  moreover have "map (\<lambda>kv. (fst kv, map_tree f (snd kv))) kvs = map (map_prod id (map_tree f)) kvs"
    by (auto simp: map_prod_def split: prod.splits)
  ultimately show ?case by simp
next
  case (PyList xs)
  have "map_state (data_map (traced f)) xs calls = (map (map_tree f) xs, calls @ concat (map leaves xs))"
    by (rule map_state_traced) (use PyList in auto)
  then show ?case by simp
next
  case (PyTuple xs)
  have "map_state (data_map (traced f)) xs calls = (map (map_tree f) xs, calls @ concat (map leaves xs))"
    by (rule map_state_traced) (use PyTuple in auto)
  then show ?case by simp
next
  case (Leaf a)
  show ?case by (simp add: traced_def)
qed

lemma same_structure_map_tree: "same_structure t (map_tree f t)"
  by (induction t) (auto simp: list_all2_map2 list_all2_same snds.simps comp_def)

lemma map_of_map_tree:
  "map_of (map (map_prod id g) kvs) k = map_option g (map_of kvs k)"
  by (induction kvs) auto

lemma leaf_at_map_tree: "leaf_at (map_tree f t) p = map_option f (leaf_at t p)"
proof (induction t p rule: leaf_at.induct)
  case (2 kvs k p)
  then show ?case by (auto simp: map_of_map_tree split: option.splits)
qed auto

text \<open>
  C5. \<open>data_map\<close> returns a tree of the same structure as its input (the same keys in the
  same order, the same lengths and arities), the leaf function is called exactly once
  for each leaf (the calls made are the leaves of the input, each once, in traversal
  order), and the leaf of the result at any place is the leaf function applied to the
  leaf of the input at that place.
\<close>

theorem data_map_isomorphic_once_per_leaf:
  "data_map (traced f) t calls = (t', calls') \<Longrightarrow>
   same_structure t t' \<and> calls' = calls @ leaves t \<and>
   (\<forall>p. leaf_at t' p = map_option f (leaf_at t p))"
  using data_map_traced [of f t calls]
  by (auto simp: same_structure_map_tree leaf_at_map_tree)

theorem data_map_isomorphic_once_per_leaf_witness:
  "data_map (traced (\<lambda>x. x + 1))
     (PyDict [(KStr ''p'', PyList [Leaf (1::int), Leaf 2]), (KStr ''m'', PyTuple [Leaf 3])]) []
   = (PyDict [(KStr ''p'', PyList [Leaf 2, Leaf 3]), (KStr ''m'', PyTuple [Leaf 4])], [1, 2, 3]) \<and>
   same_structure
     (PyDict [(KStr ''p'', PyList [Leaf (1::int), Leaf 2]), (KStr ''m'', PyTuple [Leaf 3])])
     (PyDict [(KStr ''p'', PyList [Leaf (2::int), Leaf 3]), (KStr ''m'', PyTuple [Leaf 4])]) \<and>
   [1, 2, 3] = [] @ leaves (PyDict [(KStr ''p'', PyList [Leaf (1::int), Leaf 2]), (KStr ''m'', PyTuple [Leaf 3])]) \<and>
   (\<forall>p. leaf_at (PyDict [(KStr ''p'', PyList [Leaf (2::int), Leaf 3]), (KStr ''m'', PyTuple [Leaf 4])]) p
        = map_option (\<lambda>x. x + 1)
            (leaf_at (PyDict [(KStr ''p'', PyList [Leaf (1::int), Leaf 2]), (KStr ''m'', PyTuple [Leaf 3])]) p))"
proof -
  have run: "data_map (traced (\<lambda>x. x + 1))
     (PyDict [(KStr ''p'', PyList [Leaf (1::int), Leaf 2]), (KStr ''m'', PyTuple [Leaf 3])]) []
   = (PyDict [(KStr ''p'', PyList [Leaf 2, Leaf 3]), (KStr ''m'', PyTuple [Leaf 4])], [1, 2, 3])"
    by (simp add: traced_def)
  from data_map_isomorphic_once_per_leaf [OF run] run show ?thesis by blast
qed

section \<open>Facts about \<open>collect\<close>, \<open>zip_star\<close> and \<open>zip_gens\<close>\<close>

lemma collect_map_Inr: "collect (map Inr ys) = Inr ys"
  by (induction ys) auto

lemma collect_InrD: "collect rs = Inr ys \<Longrightarrow> rs = map Inr ys"
  by (induction rs arbitrary: ys) (auto split: sum.splits)

lemma zip_star_Nil: "zip_star [] = []"
  by (simp add: zip_star.simps)

lemma zip_star_empty: "[] \<in> set xss \<Longrightarrow> zip_star xss = []"
  by (subst zip_star.simps) (auto simp: list_ex_iff)

lemma zip_star_step:
  "xss \<noteq> [] \<Longrightarrow> [] \<notin> set xss \<Longrightarrow> zip_star xss = map hd xss # zip_star (map tl xss)"
  by (subst zip_star.simps) (auto simp: list_ex_iff)

lemma Min_length_tl:
  assumes "xss \<noteq> []" and "[] \<notin> set xss"
  shows "Min (length ` set xss) = Suc (Min (length ` set (map tl xss)))"
proof -
  have "length ` set xss = Suc ` (length ` set (map tl xss))"
  proof -
    have "length xs = Suc (length (tl xs))" if "xs \<in> set xss" for xs
      by (cases xs) (use that assms(2) in auto)
    then have "length ` set xss = (\<lambda>xs. Suc (length (tl xs))) ` set xss"
      by (intro image_cong) auto
    then show ?thesis by (simp add: image_image)
  qed
  moreover have "Min (Suc ` (length ` set (map tl xss))) = Suc (Min (length ` set (map tl xss)))"
    using assms(1) by (intro mono_Min_commute [symmetric]) (auto simp: mono_def)
  ultimately show ?thesis by simp
qed

lemma zip_star_length: "xss \<noteq> [] \<Longrightarrow> length (zip_star xss) = Min (length ` set xss)"
proof (induction xss rule: zip_star.induct)
  case (1 xss)
  show ?case
  proof (cases "[] \<in> set xss")
    case True
    then have "0 \<in> length ` set xss"
      by force
    then have "Min (length ` set xss) \<le> 0"
      by (intro Min_le) auto
    then have "Min (length ` set xss) = 0"
      by simp
    with True show ?thesis by (simp add: zip_star_empty)
  next
    case False
    with "1.prems" have "length (zip_star (map tl xss)) = Min (length ` set (map tl xss))"
      by (intro "1.IH") (auto simp: list_ex_iff)
    with False "1.prems" show ?thesis
      by (simp add: zip_star_step Min_length_tl)
  qed
qed

lemma zip_star_nth:
  "i < length (zip_star xss) \<Longrightarrow> zip_star xss ! i = map (\<lambda>xs. xs ! i) xss"
proof (induction xss arbitrary: i rule: zip_star.induct)
  case (1 xss)
  have ne: "xss \<noteq> []" "[] \<notin> set xss"
  proof -
    show "xss \<noteq> []"
      using "1.prems" by (auto simp: zip_star_Nil)
    show "[] \<notin> set xss"
    proof
      assume "[] \<in> set xss"
      then have "zip_star xss = []" by (rule zip_star_empty)
      with "1.prems" show False by simp
    qed
  qed
  then have step: "zip_star xss = map hd xss # zip_star (map tl xss)"
    by (rule zip_star_step)
  show ?case
  proof (cases i)
    case 0
    have "hd xs = xs ! 0" if "xs \<in> set xss" for xs
      by (cases xs) (use that ne in auto)
    with 0 step show ?thesis by simp
  next
    case (Suc j)
    with "1.prems" step have "j < length (zip_star (map tl xss))" by simp
    with ne have "zip_star (map tl xss) ! j = map (\<lambda>xs. xs ! j) (map tl xss)"
      by (intro "1.IH") (auto simp: list_ex_iff)
    moreover have "tl xs ! j = xs ! Suc j" if "xs \<in> set xss" for xs
      by (cases xs) (use that ne in auto)
    ultimately show ?thesis
      using Suc step by simp
  qed
qed

lemma fst_zip_gens: "fst (zip_gens gs) = zip_star (map fst gs)"
proof (induction gs rule: zip_gens.induct)
  case (1 gs)
  show ?case
  proof (cases "gs = []")
    case True
    then show ?thesis by (simp add: zip_gens.simps zip_star_Nil)
  next
    case ne: False
    show ?thesis
    proof (cases "first_stop gs")
      case None
      have nonempty: "[] \<notin> set (map fst gs)"
      proof
        assume "[] \<in> set (map fst gs)"
        then obtain g where "g \<in> set gs" "fst g = []" by auto
        with first_stop_None [OF None] show False by blast
      qed
      from ne None have "fst (zip_gens (map (\<lambda>g. (tl (fst g), snd g)) gs))
                         = zip_star (map fst (map (\<lambda>g. (tl (fst g), snd g)) gs))"
        by (rule "1.IH")
      moreover have "zip_star (map fst gs) = map hd (map fst gs) # zip_star (map tl (map fst gs))"
        using ne nonempty by (intro zip_star_step) auto
      ultimately show ?thesis
        using ne None
        by (subst zip_gens.simps) (auto simp: comp_def split: prod.splits)
    next
      case (Some e)
      then have "[] \<in> set (map fst gs)"
        by (induction gs) (auto split: if_splits)
      with ne Some show ?thesis
        by (subst zip_gens.simps) (simp add: zip_star_empty)
    qed
  qed
qed

lemma snd_zip_gens_None: "\<forall>g \<in> set gs. snd g = None \<Longrightarrow> snd (zip_gens gs) = None"
proof (induction gs rule: zip_gens.induct)
  case (1 gs)
  show ?case
  proof (cases "gs = []")
    case True
    then show ?thesis by (simp add: zip_gens.simps)
  next
    case ne: False
    show ?thesis
    proof (cases "first_stop gs")
      case None
      with ne "1.prems" have "snd (zip_gens (map (\<lambda>g. (tl (fst g), snd g)) gs)) = None"
        by (intro "1.IH") auto
      with ne None show ?thesis
        by (subst zip_gens.simps) (auto split: prod.splits)
    next
      case (Some e)
      then have "\<exists>g \<in> set gs. e = snd g"
        by (induction gs) (auto split: if_splits)
      with "1.prems" have "e = None" by auto
      with ne Some show ?thesis
        by (subst zip_gens.simps) simp
    qed
  qed
qed

section \<open>\<open>data_index\<close> on a dict: exact match, then string form\<close>

lemma idx_dict_other:
  "\<not> is_int_key i \<Longrightarrow> idx g (PyDict kvs) i =
     (case map_of kvs i of
        Some v \<Rightarrow> Inr v
      | None \<Rightarrow>
          (case find (\<lambda>kv. py_str (fst kv) = py_str i) kvs of
             Some kv \<Rightarrow> Inr (snd kv)
           | None \<Rightarrow> Inl ValueError))"
  by (cases i) auto

lemma find_first:
  "\<forall>kv \<in> set pre. \<not> P kv \<Longrightarrow> P x \<Longrightarrow> find P (pre @ x # post) = Some x"
  by (induction pre) auto

lemma find_None_all: "(find P xs = None) = (\<forall>x\<in>set xs. \<not> P x)"
  by (induction xs) auto

lemma map_of_first:
  "k \<notin> keys_of pre \<Longrightarrow> map_of (pre @ (k, v) # post) k = Some v"
  by (induction pre) (auto simp: keys_of_def)

lemma string_form_match:
  assumes "\<not> is_int_key i" and "i \<notin> keys_of kvs" and "kvs = pre @ (k, v) # post"
    and "py_str k = py_str i" and "\<forall>k' \<in> keys_of pre. py_str k' \<noteq> py_str i"
  shows "data_index g (PyDict kvs) (Single i) = Inr v"
proof -
  from assms(2) have "i \<notin> fst ` set kvs"
    unfolding keys_of_def by blast
  then have "map_of kvs i = None"
    by (simp only: map_of_eq_None_iff not_False_eq_True)
  moreover from assms(4,5)
  have "find (\<lambda>kv. py_str (fst kv) = py_str i) (pre @ (k, v) # post) = Some (k, v)"
    by (intro find_first) (auto simp: keys_of_def)
  with assms(3) have "find (\<lambda>kv. py_str (fst kv) = py_str i) kvs = Some (k, v)"
    by simp
  ultimately show ?thesis
    using assms(1) by (simp add: idx_dict_other)
qed

text \<open>
  C8 as the claim states it fails: when two keys have the string form \<open>"X"\<close>, the lookup
  of \<open>"X"\<close> gives the value of the first of them, which is not the value of the second
  object.
\<close>

theorem data_index_string_form_counterexample:
  "data_index (\<lambda>a n. Inl LeafOperationError)
     (PyDict [(KObj 1 ''X'', Leaf (1::int)), (KObj 2 ''X'', Leaf 2)]) (Single (KStr ''X''))
   \<noteq> data_index (\<lambda>a n. Inl LeafOperationError)
     (PyDict [(KObj 1 ''X'', Leaf (1::int)), (KObj 2 ''X'', Leaf 2)]) (Single (KObj 2 ''X''))"
  by simp

text \<open>
  C8, amended. For a dict and a key that is not an integer, \<open>data_index\<close> returns the
  value of the key when the dict has it; otherwise the value of the first key, in the
  order of the dict, whose string form is that of the key; and it raises \<open>ValueError\<close>
  (the spec's \<open>KeyNotFound\<close>) when there is none. Hence for a dict without the string key
  \<open>"X"\<close> in which an object is the first key with the string form \<open>"X"\<close>, as it is when
  no two keys have one string form, looking up \<open>"X"\<close> gives the same as looking up the
  object.
\<close>

theorem data_index_exact_then_string_form:
  "(\<not> is_int_key i \<and> map_of kvs i = Some v
      \<longrightarrow> data_index g (PyDict kvs) (Single i) = Inr v) \<and>
   (\<not> is_int_key i \<and> i \<notin> keys_of kvs \<and> kvs = pre @ (k, v) # post \<and> py_str k = py_str i \<and>
      (\<forall>k' \<in> keys_of pre. py_str k' \<noteq> py_str i)
      \<longrightarrow> data_index g (PyDict kvs) (Single i) = Inr v) \<and>
   (\<not> is_int_key i \<and> (\<forall>k' \<in> keys_of kvs. k' \<noteq> i \<and> py_str k' \<noteq> py_str i)
      \<longrightarrow> data_index g (PyDict kvs) (Single i) = Inl ValueError) \<and>
   (KStr s \<notin> keys_of kvs \<and> kvs = pre @ (KObj n s, v) # post \<and>
      (\<forall>k' \<in> keys_of pre. py_str k' \<noteq> s)
      \<longrightarrow> data_index g (PyDict kvs) (Single (KStr s))
          = data_index g (PyDict kvs) (Single (KObj n s)))"
proof (intro conjI impI)
  assume "\<not> is_int_key i \<and> map_of kvs i = Some v"
  then show "data_index g (PyDict kvs) (Single i) = Inr v"
    by (simp add: idx_dict_other)
next
  assume "\<not> is_int_key i \<and> i \<notin> keys_of kvs \<and> kvs = pre @ (k, v) # post \<and>
          py_str k = py_str i \<and> (\<forall>k' \<in> keys_of pre. py_str k' \<noteq> py_str i)"
  then show "data_index g (PyDict kvs) (Single i) = Inr v"
    by (intro string_form_match [of i kvs pre k v post]) blast+
next
  assume a: "\<not> is_int_key i \<and> (\<forall>k' \<in> keys_of kvs. k' \<noteq> i \<and> py_str k' \<noteq> py_str i)"
  then have "map_of kvs i = None"
    by (auto simp: keys_of_def map_of_eq_None_iff)
  moreover from a have "find (\<lambda>kv. py_str (fst kv) = py_str i) kvs = None"
    by (auto simp: find_None_all keys_of_def)
  ultimately show "data_index g (PyDict kvs) (Single i) = Inl ValueError"
    using a by (simp add: idx_dict_other)
next
  assume a: "KStr s \<notin> keys_of kvs \<and> kvs = pre @ (KObj n s, v) # post \<and>
             (\<forall>k' \<in> keys_of pre. py_str k' \<noteq> s)"
  then have "data_index g (PyDict kvs) (Single (KStr s)) = Inr v"
    by (intro string_form_match [of "KStr s" kvs pre "KObj n s" v post]) auto
  moreover from a have "KObj n s \<notin> keys_of pre"
    by auto
  then have "map_of (pre @ (KObj n s, v) # post) (KObj n s) = Some v"
    by (rule map_of_first)
  with a have "data_index g (PyDict kvs) (Single (KObj n s)) = Inr v"
    by simp
  ultimately show "data_index g (PyDict kvs) (Single (KStr s))
                   = data_index g (PyDict kvs) (Single (KObj n s))"
    by simp
qed

theorem data_index_exact_then_string_form_witness:
  "data_index (\<lambda>a n. Inl LeafOperationError)
     (PyDict [(KObj 1 ''Y'', Leaf (1::int)), (KObj 2 ''X'', Leaf 2)]) (Single (KObj 2 ''X''))
   = Inr (Leaf 2) \<and>
   data_index (\<lambda>a n. Inl LeafOperationError)
     (PyDict [(KObj 1 ''Y'', Leaf (1::int)), (KObj 2 ''X'', Leaf 2)]) (Single (KStr ''X''))
   = Inr (Leaf 2) \<and>
   data_index (\<lambda>a n. Inl LeafOperationError)
     (PyDict [(KObj 1 ''Y'', Leaf (1::int)), (KObj 2 ''X'', Leaf 2)]) (Single (KStr ''Z''))
   = Inl ValueError \<and>
   data_index (\<lambda>a n. Inl LeafOperationError)
     (PyDict [(KObj 1 ''Y'', Leaf (1::int)), (KObj 2 ''X'', Leaf 2)]) (Single (KStr ''X''))
   = data_index (\<lambda>a n. Inl LeafOperationError)
     (PyDict [(KObj 1 ''Y'', Leaf (1::int)), (KObj 2 ''X'', Leaf 2)]) (Single (KObj 2 ''X''))"
proof -
  let ?g = "\<lambda>(a::int) (n::int). (Inl LeafOperationError :: error + int)"
  let ?kvs = "[(KObj 1 ''Y'', Leaf (1::int)), (KObj 2 ''X'', Leaf 2)]"
  have 1: "data_index ?g (PyDict ?kvs) (Single (KObj 2 ''X'')) = Inr (Leaf 2)"
    using data_index_exact_then_string_form
      [of "KObj 2 ''X''" ?kvs "Leaf 2" ?g "[]" "KObj 2 ''X''" "[]" "''X''" 2]
    by simp
  have 2: "data_index ?g (PyDict ?kvs) (Single (KStr ''X'')) = Inr (Leaf 2)"
    using data_index_exact_then_string_form
      [of "KStr ''X''" ?kvs "Leaf 2" ?g "[(KObj 1 ''Y'', Leaf 1)]" "KObj 2 ''X''" "[]" "''X''" 2]
    by (simp add: keys_of_def)
  have 3: "data_index ?g (PyDict ?kvs) (Single (KStr ''Z'')) = Inl ValueError"
    using data_index_exact_then_string_form
      [of "KStr ''Z''" ?kvs "Leaf 2" ?g "[]" "KObj 2 ''X''" "[]" "''X''" 2]
    by (simp add: keys_of_def)
  have 4: "data_index ?g (PyDict ?kvs) (Single (KStr ''X''))
           = data_index ?g (PyDict ?kvs) (Single (KObj 2 ''X''))"
    using data_index_exact_then_string_form
      [of "KStr ''X''" ?kvs "Leaf 2" ?g "[(KObj 1 ''Y'', Leaf 1)]" "KObj 2 ''X''" "[]" "''X''" 2]
    by (simp add: keys_of_def)
  from 1 2 3 4 show ?thesis by blast
qed

section \<open>\<open>data_index\<close> with an integer key\<close>

lemma str_int_0: "str_int 0 = ''0''"
  by (simp add: str_int_def str_nat.simps)

text \<open>
  C10. An integer key is applied as a subscript to whatever the node is: a position in a
  list or tuple, an exact key in a dict, a subscript of the array at a leaf. On a dict
  without that integer key the call ends with \<open>KeyError\<close>, as the only key of a path or
  as its first key of several; the comparison of string forms and the \<open>ValueError\<close> of a
  key that is not found are never reached.
\<close>

theorem data_index_int_key_direct:
  "data_index g data (Single (KInt n)) =
     (case data of
        PyDict kvs \<Rightarrow> (case map_of kvs (KInt n) of Some v \<Rightarrow> Inr v | None \<Rightarrow> Inl KeyError)
      | PyList xs \<Rightarrow> py_getitem xs n
      | PyTuple xs \<Rightarrow> py_getitem xs n
      | Leaf a \<Rightarrow> map_sum id Leaf (g a n)) \<and>
   (KInt n \<notin> keys_of kvs \<longrightarrow>
      data_index g (PyDict kvs) (Single (KInt n)) = Inl KeyError \<and>
      data_index g (PyDict kvs) (Path [KInt n]) = Inl KeyError \<and>
      data_index g (PyDict kvs) (Path (KInt n # k # ks)) = Inl KeyError)"
proof (intro conjI impI)
  show "data_index g data (Single (KInt n)) =
     (case data of
        PyDict kvs \<Rightarrow> (case map_of kvs (KInt n) of Some v \<Rightarrow> Inr v | None \<Rightarrow> Inl KeyError)
      | PyList xs \<Rightarrow> py_getitem xs n
      | PyTuple xs \<Rightarrow> py_getitem xs n
      | Leaf a \<Rightarrow> map_sum id Leaf (g a n))"
    by (cases data) simp_all
next
  assume "KInt n \<notin> keys_of kvs"
  then have none: "map_of kvs (KInt n) = None"
    by (simp add: keys_of_def map_of_eq_None_iff)
  then show "data_index g (PyDict kvs) (Single (KInt n)) = Inl KeyError"
    and "data_index g (PyDict kvs) (Path [KInt n]) = Inl KeyError"
    and "data_index g (PyDict kvs) (Path (KInt n # k # ks)) = Inl KeyError"
    by simp_all
qed

theorem data_index_int_key_direct_witness:
  "KInt 0 \<notin> keys_of [(KStr ''0'', Leaf (7::int))] \<and>
   py_str (KStr ''0'') = py_str (KInt 0) \<and>
   data_index (\<lambda>a n. Inl LeafOperationError) (PyDict [(KStr ''0'', Leaf (7::int))]) (Single (KInt 0))
     = Inl KeyError \<and>
   data_index (\<lambda>a n. Inl LeafOperationError) (PyDict [(KStr ''0'', Leaf (7::int))]) (Single (KObj 1 ''0''))
     = Inr (Leaf 7)"
  using data_index_int_key_direct
    [of "\<lambda>a n. Inl LeafOperationError" "PyDict [(KStr ''0'', Leaf (7::int))]" 0
        "[(KStr ''0'', Leaf (7::int))]" "KInt 0" "[]"]
  by (simp add: keys_of_def str_int_0)

section \<open>\<open>data_merge\<close> on dicts\<close>

lemma collect_all_Inr:
  "(\<And>x. x \<in> set xs \<Longrightarrow> \<exists>v. f x = Inr v) \<Longrightarrow> \<exists>ys. collect (map f xs) = Inr ys"
proof (induction xs)
  case Nil
  show ?case by simp
next
  case (Cons x xs)
  from Cons.prems obtain v where "f x = Inr v" by auto
  moreover from Cons obtain ys where "collect (map f xs) = Inr ys" by auto
  ultimately show ?case by simp
qed

lemma keyed_results:
  "map (\<lambda>i. map_sum id (Pair i) (m i)) ks = map Inr r \<Longrightarrow>
   map fst r = ks \<and> (\<forall>k v. (k, v) \<in> set r \<longrightarrow> m k = Inr v)"
proof (induction ks arbitrary: r)
  case Nil
  then show ?case by simp
next
  case (Cons i ks)
  then obtain p r' where r: "r = p # r'"
    by (cases r) auto
  with Cons.prems
  have "map_sum id (Pair i) (m i) # map (\<lambda>i. map_sum id (Pair i) (m i)) ks = Inr p # map Inr r'"
    by (simp only: list.map)
  then have hd: "map_sum id (Pair i) (m i) = Inr p"
    and tl: "map (\<lambda>i. map_sum id (Pair i) (m i)) ks = map Inr r'"
    unfolding list.inject by blast+
  from hd obtain v where v: "m i = Inr v" "p = (i, v)"
    by (cases "m i") auto
  from Cons.IH [OF tl] r v show ?case by auto
qed

lemma merge_idx_common:
  "list_all is_dict rest \<Longrightarrow>
   set (remdups (filter (\<lambda>k. list_all (\<lambda>t. k \<in> set (map fst (dict_items t))) rest) (map fst kvs)))
   = common_keys (PyDict kvs # rest)"
  by (auto simp: common_keys_def keys_of_def list_all_iff)

lemma data_merge_dict:
  "list_all is_dict rest \<Longrightarrow>
   data_merge cat axis (PyDict kvs # rest) =
     map_sum id PyDict
       (collect (map (\<lambda>i. map_sum id (Pair i)
                            (data_merge cat 0 (map (\<lambda>d. dict_get d i) (PyDict kvs # rest))))
          (remdups (filter (\<lambda>k. list_all (\<lambda>t. k \<in> set (map fst (dict_items t))) rest) (map fst kvs)))))"
  by (simp add: Let_def)

text \<open>
  C2. When every input is a dict, the keys of the result are the keys that all inputs
  have (a key that some input lacks is dropped without an error), and the value of each
  key is the merge of the values the inputs have for it; the merge returns a result when
  all these merges do. Merging \<open>{a: x, b: y}\<close> with \<open>{b: y2, c: z}\<close> gives the dict with the
  only key \<open>b\<close>, whose leaf is the concatenation of \<open>y\<close> and \<open>y2\<close> along axis \<open>0\<close>.
\<close>

theorem data_merge_dict_key_intersection:
  "(list_all is_dict rest \<and> ts = PyDict kvs # rest \<and> data_merge cat axis ts = Inr t \<longrightarrow>
      (\<exists>r. t = PyDict r \<and> distinct (map fst r) \<and> keys_of r = common_keys ts \<and>
           (\<forall>k v. (k, v) \<in> set r \<longrightarrow> data_merge cat 0 (map (\<lambda>d. dict_get d k) ts) = Inr v))) \<and>
   (list_all is_dict rest \<and> ts = PyDict kvs # rest \<and>
      (\<forall>k \<in> common_keys ts. \<exists>v. data_merge cat 0 (map (\<lambda>d. dict_get d k) ts) = Inr v) \<longrightarrow>
      (\<exists>t. data_merge cat axis ts = Inr t)) \<and>
   (a \<noteq> b \<and> a \<noteq> c \<and> b \<noteq> c \<longrightarrow>
      data_merge cat axis [PyDict [(a, Leaf x), (b, Leaf y)], PyDict [(b, Leaf y2), (c, Leaf z)]]
      = map_sum id (\<lambda>v. PyDict [(b, Leaf v)]) (cat 0 [y, y2]))"
proof (intro conjI impI)
  let ?ks = "remdups (filter (\<lambda>k. list_all (\<lambda>t. k \<in> set (map fst (dict_items t))) rest) (map fst kvs))"
  let ?m = "\<lambda>i. data_merge cat 0 (map (\<lambda>d. dict_get d i) (PyDict kvs # rest))"
  {
    assume a: "list_all is_dict rest \<and> ts = PyDict kvs # rest \<and> data_merge cat axis ts = Inr t"
    then have d: "list_all is_dict rest" and "data_merge cat axis (PyDict kvs # rest) = Inr t"
      by (auto simp del: data_merge.simps)
    then have "map_sum id PyDict (collect (map (\<lambda>i. map_sum id (Pair i) (?m i)) ?ks)) = Inr t"
      unfolding data_merge_dict [OF d] by blast
    then obtain r where r: "collect (map (\<lambda>i. map_sum id (Pair i) (?m i)) ?ks) = Inr r" "t = PyDict r"
      by (cases "collect (map (\<lambda>i. map_sum id (Pair i) (?m i)) ?ks)") auto
    from keyed_results [OF collect_InrD [OF r(1)]]
    have keys: "map fst r = ?ks" and vals: "\<forall>k v. (k, v) \<in> set r \<longrightarrow> ?m k = Inr v"
      by blast+
    from keys have "distinct (map fst r)" by simp
    moreover have "keys_of r = set (map fst r)"
      by (simp add: keys_of_def)
    with keys a have "keys_of r = common_keys ts"
      using merge_idx_common [OF d, of kvs] by simp
    ultimately show "\<exists>r. t = PyDict r \<and> distinct (map fst r) \<and> keys_of r = common_keys ts \<and>
           (\<forall>k v. (k, v) \<in> set r \<longrightarrow> data_merge cat 0 (map (\<lambda>d. dict_get d k) ts) = Inr v)"
      using r(2) vals a by blast
  }
  {
    assume a: "list_all is_dict rest \<and> ts = PyDict kvs # rest \<and>
      (\<forall>k \<in> common_keys ts. \<exists>v. data_merge cat 0 (map (\<lambda>d. dict_get d k) ts) = Inr v)"
    then have d: "list_all is_dict rest" and ts: "ts = PyDict kvs # rest"
      by simp_all
    have "\<exists>v. map_sum id (Pair i) (?m i) = Inr v" if "i \<in> set ?ks" for i
    proof -
      from that have "i \<in> common_keys (PyDict kvs # rest)"
        unfolding merge_idx_common [OF d] .
      with a ts obtain v where "?m i = Inr v" by blast
      then show ?thesis by simp
    qed
    then obtain r where "collect (map (\<lambda>i. map_sum id (Pair i) (?m i)) ?ks) = Inr r"
      using collect_all_Inr [of ?ks "\<lambda>i. map_sum id (Pair i) (?m i)"] by blast
    then show "\<exists>t. data_merge cat axis ts = Inr t"
      unfolding ts data_merge_dict [OF d] by simp
  }
  {
    assume "a \<noteq> b \<and> a \<noteq> c \<and> b \<noteq> c"
    then show "data_merge cat axis [PyDict [(a, Leaf x), (b, Leaf y)], PyDict [(b, Leaf y2), (c, Leaf z)]]
      = map_sum id (\<lambda>v. PyDict [(b, Leaf v)]) (cat 0 [y, y2])"
      by (cases "cat 0 [y, y2]") (auto simp: dict_get_def)
  }
qed

theorem data_merge_dict_key_intersection_witness:
  "data_merge tf_concat 0
     [PyDict [(KStr ''a'', Leaf (Array [Scalar (1::int)])), (KStr ''b'', Leaf (Array [Scalar 2]))],
      PyDict [(KStr ''b'', Leaf (Array [Scalar 3])), (KStr ''c'', Leaf (Array [Scalar 4]))]]
   = Inr (PyDict [(KStr ''b'', Leaf (Array [Scalar 2, Scalar 3]))]) \<and>
   common_keys
     [PyDict [(KStr ''a'', Leaf (Array [Scalar (1::int)])), (KStr ''b'', Leaf (Array [Scalar 2]))],
      PyDict [(KStr ''b'', Leaf (Array [Scalar 3])), (KStr ''c'', Leaf (Array [Scalar 4]))]]
   = keys_of [(KStr ''b'', Leaf (Array [Scalar (2::int), Scalar 3]))]"
proof -
  let ?ts = "[PyDict [(KStr ''a'', Leaf (Array [Scalar (1::int)])), (KStr ''b'', Leaf (Array [Scalar 2]))],
      PyDict [(KStr ''b'', Leaf (Array [Scalar 3])), (KStr ''c'', Leaf (Array [Scalar 4]))]]"
  have cat: "tf_concat 0 [Array [Scalar (2::int)], Array [Scalar 3]] = Inr (Array [Scalar 2, Scalar 3])"
    by (simp add: tf_concat_def drop_axis_def)
  have run: "data_merge tf_concat 0 ?ts = Inr (PyDict [(KStr ''b'', Leaf (Array [Scalar 2, Scalar 3]))])"
    using data_merge_dict_key_intersection
      [of "[]" "[]" "[]" tf_concat 0 "Leaf (Array [] :: int ndarray)" "KStr ''a''" "KStr ''b''" "KStr ''c''"
          "Array [Scalar (1::int)]" "Array [Scalar (2::int)]" "Array [Scalar (3::int)]"
          "Array [Scalar (4::int)]"]
    by (simp add: cat)
  from data_merge_dict_key_intersection
      [of "[PyDict [(KStr ''b'', Leaf (Array [Scalar 3])), (KStr ''c'', Leaf (Array [Scalar 4]))]]"
          ?ts "[(KStr ''a'', Leaf (Array [Scalar (1::int)])), (KStr ''b'', Leaf (Array [Scalar 2]))]"
          tf_concat 0 "PyDict [(KStr ''b'', Leaf (Array [Scalar 2, Scalar 3]))]"] run
  have "common_keys ?ts = keys_of [(KStr ''b'', Leaf (Array [Scalar (2::int), Scalar 3]))]"
    by simp
  with run show ?thesis by blast
qed

section \<open>\<open>data_merge\<close> on lists and tuples of different lengths\<close>

lemma data_merge_list:
  "list_all is_list rest \<Longrightarrow>
   data_merge cat axis (PyList xs # rest) =
     map_sum id PyList (collect (map (data_merge cat 0) (zip_star (map elements (PyList xs # rest)))))"
  by simp

lemma data_merge_tuple:
  "list_all is_tuple rest \<Longrightarrow>
   data_merge cat axis (PyTuple xs # rest) =
     map_sum id PyTuple (collect (map (data_merge cat 0) (zip_star (map elements (PyTuple xs # rest)))))"
  by simp

lemma zip_star_elements_length:
  "ts \<noteq> [] \<Longrightarrow> length (zip_star (map elements ts)) = shortest ts"
  using zip_star_length [of "map elements ts"]
  by (simp add: shortest_def image_image)

lemma zip_star_elements_nth:
  "i < shortest ts \<Longrightarrow> ts \<noteq> [] \<Longrightarrow>
   zip_star (map elements ts) ! i = map (\<lambda>d. elements d ! i) ts"
  using zip_star_nth [of i "map elements ts"]
  by (simp add: zip_star_elements_length comp_def)

lemma merged_positions:
  assumes "ts \<noteq> []"
    and "collect (map (data_merge cat 0) (zip_star (map elements ts))) = Inr rs"
  shows "length rs = shortest ts \<and>
         (\<forall>i < length rs. data_merge cat 0 (map (\<lambda>d. elements d ! i) ts) = Inr (rs ! i))"
proof -
  from collect_InrD [OF assms(2)]
  have eq: "map (data_merge cat 0) (zip_star (map elements ts)) = map Inr rs" .
  then have "length (zip_star (map elements ts)) = length rs"
    by (metis length_map)
  with assms(1) have len: "length rs = shortest ts"
    by (simp add: zip_star_elements_length)
  have "data_merge cat 0 (map (\<lambda>d. elements d ! i) ts) = Inr (rs ! i)" if "i < length rs" for i
  proof -
    from that len have i: "i < shortest ts" by simp
    with assms(1) have "i < length (zip_star (map elements ts))"
      by (simp add: zip_star_elements_length)
    then have "map (data_merge cat 0) (zip_star (map elements ts)) ! i
               = data_merge cat 0 (zip_star (map elements ts) ! i)"
      by (rule nth_map)
    with eq that have "data_merge cat 0 (zip_star (map elements ts) ! i) = Inr (rs ! i)"
      by simp
    with zip_star_elements_nth [OF i assms(1)] show ?thesis by simp
  qed
  with len show ?thesis by blast
qed

lemma positions_merge:
  assumes "ts \<noteq> []"
    and "\<forall>i < shortest ts. \<exists>v. data_merge cat 0 (map (\<lambda>d. elements d ! i) ts) = Inr v"
  shows "\<exists>rs. collect (map (data_merge cat 0) (zip_star (map elements ts))) = Inr rs"
proof (rule collect_all_Inr)
  fix col
  assume "col \<in> set (zip_star (map elements ts))"
  then obtain i where i: "i < length (zip_star (map elements ts))"
    and col: "col = zip_star (map elements ts) ! i"
    by (metis in_set_conv_nth)
  from i assms(1) have "i < shortest ts"
    by (simp add: zip_star_elements_length)
  with assms zip_star_elements_nth [of i ts] col
  show "\<exists>v. data_merge cat 0 col = Inr v" by simp
qed

text \<open>
  C3 as the claim states it fails: two trees whose shared key holds lists of lengths two
  and one are merged without an error, and the second element of the longer list is
  dropped.
\<close>

theorem data_merge_length_mismatch_counterexample:
  "data_merge tf_concat 0
     [PyDict [(KStr ''k'', PyList [Leaf (Array [Scalar (1::int)]), Leaf (Array [Scalar 2])])],
      PyDict [(KStr ''k'', PyList [Leaf (Array [Scalar 3])])]]
   = Inr (PyDict [(KStr ''k'', PyList [Leaf (Array [Scalar 1, Scalar 3])])])"
  by (simp add: dict_get_def zip_star.simps tf_concat_def drop_axis_def)

text \<open>
  C3, amended. Lists, or tuples, of different lengths at a shared place raise no error:
  they are merged position by position up to the length of the shortest, the elements
  beyond it are dropped, and the merge returns a result when the merges of these
  positions do. \<open>AssertionError\<close> (the spec's \<open>StructureMismatch\<close>) is raised when an input
  is not of the kind of the first one.
\<close>

theorem data_merge_sequences_truncate:
  "(list_all is_list rest \<and> ts = PyList xs # rest \<and> data_merge cat axis ts = Inr t \<longrightarrow>
      (\<exists>rs. t = PyList rs \<and> length rs = shortest ts \<and>
            (\<forall>i < length rs. data_merge cat 0 (map (\<lambda>d. elements d ! i) ts) = Inr (rs ! i)))) \<and>
   (list_all is_tuple rest \<and> ts = PyTuple xs # rest \<and> data_merge cat axis ts = Inr t \<longrightarrow>
      (\<exists>rs. t = PyTuple rs \<and> length rs = shortest ts \<and>
            (\<forall>i < length rs. data_merge cat 0 (map (\<lambda>d. elements d ! i) ts) = Inr (rs ! i)))) \<and>
   ((list_all is_list rest \<and> ts = PyList xs # rest \<or> list_all is_tuple rest \<and> ts = PyTuple xs # rest) \<and>
      (\<forall>i < shortest ts. \<exists>v. data_merge cat 0 (map (\<lambda>d. elements d ! i) ts) = Inr v) \<longrightarrow>
      (\<exists>t. data_merge cat axis ts = Inr t)) \<and>
   (\<not> list_all is_list rest \<longrightarrow> data_merge cat axis (PyList xs # rest) = Inl AssertionError) \<and>
   (\<not> list_all is_tuple rest \<longrightarrow> data_merge cat axis (PyTuple xs # rest) = Inl AssertionError)"
proof (intro conjI impI)
  {
    assume a: "list_all is_list rest \<and> ts = PyList xs # rest \<and> data_merge cat axis ts = Inr t"
    then have d: "list_all is_list rest" and ts: "ts = PyList xs # rest"
      and "data_merge cat axis (PyList xs # rest) = Inr t"
      by (auto simp del: data_merge.simps)
    then have "map_sum id PyList (collect (map (data_merge cat 0) (zip_star (map elements ts)))) = Inr t"
      unfolding ts data_merge_list [OF d] by blast
    then obtain rs where rs: "collect (map (data_merge cat 0) (zip_star (map elements ts))) = Inr rs"
      and t: "t = PyList rs"
      by (cases "collect (map (data_merge cat 0) (zip_star (map elements ts)))") auto
    from ts have "ts \<noteq> []" by simp
    from merged_positions [OF this rs] t
    show "\<exists>rs. t = PyList rs \<and> length rs = shortest ts \<and>
            (\<forall>i < length rs. data_merge cat 0 (map (\<lambda>d. elements d ! i) ts) = Inr (rs ! i))"
      by blast
  }
  {
    assume a: "list_all is_tuple rest \<and> ts = PyTuple xs # rest \<and> data_merge cat axis ts = Inr t"
    then have d: "list_all is_tuple rest" and ts: "ts = PyTuple xs # rest"
      and "data_merge cat axis (PyTuple xs # rest) = Inr t"
      by (auto simp del: data_merge.simps)
    then have "map_sum id PyTuple (collect (map (data_merge cat 0) (zip_star (map elements ts)))) = Inr t"
      unfolding ts data_merge_tuple [OF d] by blast
    then obtain rs where rs: "collect (map (data_merge cat 0) (zip_star (map elements ts))) = Inr rs"
      and t: "t = PyTuple rs"
      by (cases "collect (map (data_merge cat 0) (zip_star (map elements ts)))") auto
    from ts have "ts \<noteq> []" by simp
    from merged_positions [OF this rs] t
    show "\<exists>rs. t = PyTuple rs \<and> length rs = shortest ts \<and>
            (\<forall>i < length rs. data_merge cat 0 (map (\<lambda>d. elements d ! i) ts) = Inr (rs ! i))"
      by blast
  }
  {
    assume a: "(list_all is_list rest \<and> ts = PyList xs # rest \<or>
                list_all is_tuple rest \<and> ts = PyTuple xs # rest) \<and>
      (\<forall>i < shortest ts. \<exists>v. data_merge cat 0 (map (\<lambda>d. elements d ! i) ts) = Inr v)"
    then have "ts \<noteq> []" by auto
    from positions_merge [OF this] a
    obtain rs where rs: "collect (map (data_merge cat 0) (zip_star (map elements ts))) = Inr rs"
      by blast
    from a consider "list_all is_list rest" "ts = PyList xs # rest"
      | "list_all is_tuple rest" "ts = PyTuple xs # rest"
      by blast
    then show "\<exists>t. data_merge cat axis ts = Inr t"
    proof cases
      case 1
      with rs show ?thesis
        unfolding 1(2) data_merge_list [OF 1(1)] by simp
    next
      case 2
      with rs show ?thesis
        unfolding 2(2) data_merge_tuple [OF 2(1)] by simp
    qed
  }
  {
    assume "\<not> list_all is_list rest"
    then show "data_merge cat axis (PyList xs # rest) = Inl AssertionError" by simp
  }
  {
    assume "\<not> list_all is_tuple rest"
    then show "data_merge cat axis (PyTuple xs # rest) = Inl AssertionError" by simp
  }
qed

theorem data_merge_sequences_truncate_witness:
  "data_merge tf_concat 0
     [PyList [Leaf (Array [Scalar (1::int)]), Leaf (Array [Scalar 2])], PyList [Leaf (Array [Scalar 3])]]
   = Inr (PyList [Leaf (Array [Scalar 1, Scalar 3])]) \<and>
   shortest [PyList [Leaf (Array [Scalar (1::int)]), Leaf (Array [Scalar 2])], PyList [Leaf (Array [Scalar 3])]]
   = length [Leaf (Array [Scalar (1::int), Scalar 3])] \<and>
   data_merge tf_concat 0 [PyList [Leaf (Array [Scalar (1::int)])], Leaf (Array [Scalar 2])]
   = Inl AssertionError"
proof -
  let ?ts = "[PyList [Leaf (Array [Scalar (1::int)]), Leaf (Array [Scalar 2])], PyList [Leaf (Array [Scalar 3])]]"
  have run: "data_merge tf_concat 0 ?ts = Inr (PyList [Leaf (Array [Scalar 1, Scalar 3])])"
    by (simp add: zip_star.simps tf_concat_def drop_axis_def)
  from data_merge_sequences_truncate
    [of "[PyList [Leaf (Array [Scalar (3::int)])]]" ?ts
        "[Leaf (Array [Scalar (1::int)]), Leaf (Array [Scalar 2])]" tf_concat 0
        "PyList [Leaf (Array [Scalar 1, Scalar 3])]"] run
  have "shortest ?ts = length [Leaf (Array [Scalar (1::int), Scalar 3])]"
    by auto
  moreover from data_merge_sequences_truncate
    [of "[Leaf (Array [Scalar (2::int)])]" "[]" "[Leaf (Array [Scalar (1::int)])]" tf_concat 0]
  have "data_merge tf_concat 0 [PyList [Leaf (Array [Scalar (1::int)])], Leaf (Array [Scalar 2])]
        = Inl AssertionError"
    by simp
  ultimately show ?thesis using run by blast
qed

section \<open>\<open>data_merge\<close> and the axis below the top level\<close>

text \<open>
  C4. The claim asks for the concatenation along \<open>axis\<close> at every depth. Two trees that
  are leaves are concatenated along axis \<open>1\<close> when \<open>axis = 1\<close>; the same two arrays under
  a key are concatenated along axis \<open>0\<close>, because the recursive call does not hand \<open>axis\<close>
  down.
\<close>

theorem data_merge_nested_axis_ignored:
  "data_merge tf_concat 1
     [Leaf (Array [Array [Scalar (1::int), Scalar 2]]), Leaf (Array [Array [Scalar 3, Scalar 4]])]
   = Inr (Leaf (Array [Array [Scalar 1, Scalar 2, Scalar 3, Scalar 4]])) \<and>
   data_merge tf_concat 1
     [PyDict [(KStr ''k'', Leaf (Array [Array [Scalar (1::int), Scalar 2]]))],
      PyDict [(KStr ''k'', Leaf (Array [Array [Scalar 3, Scalar 4]]))]]
   = Inr (PyDict [(KStr ''k'', Leaf (Array [Array [Scalar 1, Scalar 2], Array [Scalar 3, Scalar 4]]))]) \<and>
   tf_concat 1 [Array [Array [Scalar (1::int), Scalar 2]], Array [Array [Scalar 3, Scalar 4]]]
   = Inr (Array [Array [Scalar 1, Scalar 2, Scalar 3, Scalar 4]])"
  by (simp add: dict_get_def zip_star.simps tf_concat_def drop_axis_def)

section \<open>\<open>flatten_dict_data\<close> and the formatter below the first level\<close>

lemma flatten_dict_data_Leaf: "flatten_dict_data f (Leaf a) = Leaf a"
  by (simp add: flatten_dict_data.simps)

lemma flatten_dict_data_PyDict:
  "flatten_dict_data f (PyDict kvs) =
     PyDict (foldl (\<lambda>ret (i, data_i). flatten_put f ret i (flatten_dict_data default_fun data_i)) [] kvs)"
  by (subst flatten_dict_data.simps) simp

lemma flatten_dict_data_PyList:
  "flatten_dict_data f (PyList xs) =
     PyDict (foldl (\<lambda>ret (i, data_i). flatten_put f ret i (flatten_dict_data default_fun data_i)) []
               (list_gen xs))"
  by (subst flatten_dict_data.simps) simp

lemma flatten_dict_data_PyTuple:
  "flatten_dict_data f (PyTuple xs) =
     PyDict (foldl (\<lambda>ret (i, data_i). flatten_put f ret i (flatten_dict_data default_fun data_i)) []
               (list_gen xs))"
  by (subst flatten_dict_data.simps) simp

lemmas flatten_dict_data_eqs =
  flatten_dict_data_Leaf flatten_dict_data_PyDict flatten_dict_data_PyList flatten_dict_data_PyTuple

text \<open>
  C7. With the default formatter the example of the claim comes out as stated, and a
  child that is a leaf keeps its key. With a formatter of the caller that joins with a
  dot, three levels of dicts give the key \<open>"A.B/c"\<close>: the inner composite key \<open>"B/c"\<close> is
  made by the default formatter, because the recursive call does not hand \<open>fun\<close> down,
  where the claim asks for the caller's formatter and so for \<open>"A.B.c"\<close>.
\<close>

theorem flatten_dict_data_formatter_not_handed_down:
  "flatten_dict_data default_fun
     (PyDict [(KStr ''A'', PyDict [(KStr ''p'', Leaf (1::int)), (KStr ''m'', Leaf 2)])])
   = PyDict [(KStr ''A/p'', Leaf 1), (KStr ''A/m'', Leaf 2)] \<and>
   flatten_dict_data default_fun
     (PyDict [(KStr ''A'', PyList [Leaf (1::int), Leaf 2]), (KStr ''w'', Leaf 3)])
   = PyDict [(KStr ''A/0'', Leaf 1), (KStr ''A/1'', Leaf 2), (KStr ''w'', Leaf 3)] \<and>
   flatten_dict_data (\<lambda>i j. KStr (py_str i @ ''.'' @ py_str j))
     (PyDict [(KStr ''A'', PyDict [(KStr ''B'', PyDict [(KStr ''c'', Leaf (1::int))])])])
   = PyDict [(KStr ''A.B/c'', Leaf 1)]"
  by (simp add: flatten_dict_data_eqs flatten_put_def default_fun_def list_gen_def
      str_int_def str_nat.simps)

section \<open>Rows and columns\<close>

text \<open>
  The generators of the children of a container are its columns, the sub-trees the
  container yields are the rows. When all columns have one length, which is not zero,
  transposing the rows gives the columns back.
\<close>

lemma Min_const:
  assumes "cols \<noteq> []" and "\<forall>c \<in> set cols. length c = m"
  shows "Min (length ` set cols) = m"
proof -
  from assms(1) obtain c where "c \<in> set cols"
    by (cases cols) auto
  with assms(2) have "length ` set cols = {m}" by force
  then show ?thesis by simp
qed

lemma rows_of_columns:
  assumes "cols \<noteq> []" and "\<forall>c \<in> set cols. length c = m"
  shows "length (zip_star cols) = m"
    and "\<And>i. i < m \<Longrightarrow> zip_star cols ! i = map (\<lambda>c. c ! i) cols"
proof -
  show len: "length (zip_star cols) = m"
    using assms by (simp add: zip_star_length Min_const)
  show "zip_star cols ! i = map (\<lambda>c. c ! i) cols" if "i < m" for i
    using that len by (simp add: zip_star_nth)
qed

lemma columns_of_rows:
  assumes "cols \<noteq> []" and "\<forall>c \<in> set cols. length c = m" and "0 < m"
  shows "zip_star (zip_star cols) = cols"
proof (rule nth_equalityI)
  let ?rows = "zip_star cols"
  have len: "length ?rows = m"
    and row: "\<And>i. i < m \<Longrightarrow> ?rows ! i = map (\<lambda>c. c ! i) cols"
    using rows_of_columns [OF assms(1,2)] by blast+
  from len assms(3) have ne: "?rows \<noteq> []" by auto
  have "\<forall>r \<in> set ?rows. length r = length cols"
  proof
    fix r assume "r \<in> set ?rows"
    then obtain i where "i < m" "r = ?rows ! i"
      using len by (metis in_set_conv_nth)
    with row show "length r = length cols" by simp
  qed
  from rows_of_columns [OF ne this]
  have len2: "length (zip_star ?rows) = length cols"
    and col: "\<And>j. j < length cols \<Longrightarrow> zip_star ?rows ! j = map (\<lambda>r. r ! j) ?rows"
    by blast+
  show "length (zip_star ?rows) = length cols" by (rule len2)
  show "zip_star ?rows ! j = cols ! j" if "j < length (zip_star ?rows)" for j
  proof -
    from that len2 have j: "j < length cols" by simp
    then have lj: "length (cols ! j) = m"
      using assms(2) by simp
    have "map (\<lambda>r. r ! j) ?rows = cols ! j"
    proof (rule nth_equalityI)
      show "length (map (\<lambda>r. r ! j) ?rows) = length (cols ! j)"
        using len lj by simp
      show "map (\<lambda>r. r ! j) ?rows ! i = cols ! j ! i" if "i < length (map (\<lambda>r. r ! j) ?rows)" for i
      proof -
        from that len have i: "i < m" by simp
        with len have "map (\<lambda>r. r ! j) ?rows ! i = ?rows ! i ! j" by simp
        also from row [OF i] j have "\<dots> = cols ! j ! i" by simp
        finally show ?thesis .
      qed
    qed
    with col [OF j] show ?thesis by simp
  qed
qed

section \<open>Merging the rows a container yields\<close>

lemma map_elements_PyList: "map elements (map PyList rows) = rows"
  by (induction rows) auto

lemma map_elements_PyTuple: "map elements (map PyTuple rows) = rows"
  by (induction rows) auto

lemma merge_list_rows:
  assumes "cols \<noteq> []" and "\<forall>c \<in> set cols. length c = m" and "0 < m"
    and "map (data_merge cat 0) cols = map Inr xs"
  shows "data_merge cat axis (map PyList (zip_star cols)) = Inr (PyList xs)"
proof -
  let ?rows = "zip_star cols"
  from rows_of_columns(1) [OF assms(1,2)] assms(3) obtain r rs where rows: "?rows = r # rs"
    by (cases ?rows) auto
  have "list_all is_list (map PyList rs)"
    by (simp add: list_all_iff)
  from data_merge_list [OF this, of cat axis r]
  have "data_merge cat axis (map PyList ?rows)
        = map_sum id PyList (collect (map (data_merge cat 0) (zip_star (map elements (map PyList ?rows)))))"
    unfolding rows by (simp del: data_merge.simps)
  also have "\<dots> = map_sum id PyList (collect (map (data_merge cat 0) cols))"
    by (simp only: map_elements_PyList columns_of_rows [OF assms(1-3)])
  also have "\<dots> = Inr (PyList xs)"
    by (simp only: assms(4) collect_map_Inr) simp
  finally show ?thesis .
qed

lemma merge_tuple_rows:
  assumes "cols \<noteq> []" and "\<forall>c \<in> set cols. length c = m" and "0 < m"
    and "map (data_merge cat 0) cols = map Inr xs"
  shows "data_merge cat axis (map PyTuple (zip_star cols)) = Inr (PyTuple xs)"
proof -
  let ?rows = "zip_star cols"
  from rows_of_columns(1) [OF assms(1,2)] assms(3) obtain r rs where rows: "?rows = r # rs"
    by (cases ?rows) auto
  have "list_all is_tuple (map PyTuple rs)"
    by (simp add: list_all_iff)
  from data_merge_tuple [OF this, of cat axis r]
  have "data_merge cat axis (map PyTuple ?rows)
        = map_sum id PyTuple (collect (map (data_merge cat 0) (zip_star (map elements (map PyTuple ?rows)))))"
    unfolding rows by (simp del: data_merge.simps)
  also have "\<dots> = map_sum id PyTuple (collect (map (data_merge cat 0) cols))"
    by (simp only: map_elements_PyTuple columns_of_rows [OF assms(1-3)])
  also have "\<dots> = Inr (PyTuple xs)"
    by (simp only: assms(4) collect_map_Inr) simp
  finally show ?thesis .
qed

lemma dict_get_zip:
  "distinct ks \<Longrightarrow> length row = length ks \<Longrightarrow> j < length ks \<Longrightarrow>
   dict_get (PyDict (zip ks row)) (ks ! j) = row ! j"
  by (simp add: dict_get_def map_of_zip_nth)

lemma merge_dict_rows:
  assumes "cols \<noteq> []" and "\<forall>c \<in> set cols. length c = m" and "0 < m"
    and "distinct ks" and "length ks = length cols"
    and "map (data_merge cat 0) cols = map Inr vs"
  shows "data_merge cat axis (map (\<lambda>row. PyDict (zip ks row)) (zip_star cols)) = Inr (PyDict (zip ks vs))"
proof -
  let ?rows = "zip_star cols"
  let ?ts = "map (\<lambda>row. PyDict (zip ks row)) ?rows"
  have len: "length ?rows = m"
    and row: "\<And>i. i < m \<Longrightarrow> ?rows ! i = map (\<lambda>c. c ! i) cols"
    using rows_of_columns [OF assms(1,2)] by blast+
  have rowlen: "length r = length ks" if "r \<in> set ?rows" for r
  proof -
    from that obtain i where "i < m" "r = ?rows ! i"
      using len by (metis in_set_conv_nth)
    with row assms(5) show ?thesis by simp
  qed
  from len assms(3) obtain r rs where rows: "?rows = r # rs"
    by (cases ?rows) auto
  have keys: "map fst (dict_items t) = ks" if "t \<in> set ?ts" for t
    using that rowlen by auto
  let ?idx = "remdups (filter (\<lambda>k. list_all (\<lambda>t. k \<in> set (map fst (dict_items t))) (map (\<lambda>row. PyDict (zip ks row)) rs))
                (map fst (zip ks r)))"
  have "map fst (zip ks r) = ks"
    using rowlen [of r] rows by simp
  moreover have "list_all (\<lambda>t. k \<in> set (map fst (dict_items t))) (map (\<lambda>row. PyDict (zip ks row)) rs)"
    if "k \<in> set ks" for k
    unfolding list_all_iff
  proof
    fix t assume "t \<in> set (map (\<lambda>row. PyDict (zip ks row)) rs)"
    then have "t \<in> set ?ts" unfolding rows by simp
    from keys [OF this] that show "k \<in> set (map fst (dict_items t))" by simp
  qed
  ultimately have idx: "?idx = ks"
    using assms(4) by (simp add: filter_id_conv)
  have col: "map (\<lambda>d. dict_get d (ks ! j)) ?ts = cols ! j" if "j < length ks" for j
  proof -
    have "map (\<lambda>d. dict_get d (ks ! j)) ?ts = map (\<lambda>row. row ! j) ?rows"
      using that rowlen assms(4) by (simp add: dict_get_zip)
    also have "\<dots> = zip_star ?rows ! j"
    proof -
      have "?rows \<noteq> []" using rows by simp
      moreover have "\<forall>r \<in> set ?rows. length r = length cols"
        using rowlen assms(5) by simp
      ultimately show ?thesis
        using rows_of_columns(2) [of ?rows "length cols" j] that assms(5) by simp
    qed
    also have "\<dots> = cols ! j"
      by (simp only: columns_of_rows [OF assms(1-3)])
    finally show ?thesis .
  qed
  have lenvs: "length vs = length cols"
    using assms(6) by (metis length_map)
  have results: "map (\<lambda>i. map_sum id (Pair i) (data_merge cat 0 (map (\<lambda>d. dict_get d i) ?ts))) ks
        = map Inr (zip ks vs)"
  proof (rule nth_equalityI)
    show "length (map (\<lambda>i. map_sum id (Pair i) (data_merge cat 0 (map (\<lambda>d. dict_get d i) ?ts))) ks)
          = length (map Inr (zip ks vs))"
      using lenvs assms(5) by simp
    fix j
    assume "j < length (map (\<lambda>i. map_sum id (Pair i) (data_merge cat 0 (map (\<lambda>d. dict_get d i) ?ts))) ks)"
    then have j: "j < length ks" by simp
    with assms(5) have "map (data_merge cat 0) cols ! j = data_merge cat 0 (cols ! j)"
      by simp
    with assms(6) j lenvs assms(5) have "data_merge cat 0 (cols ! j) = Inr (vs ! j)"
      by simp
    with col [OF j] j lenvs assms(5)
    show "map (\<lambda>i. map_sum id (Pair i) (data_merge cat 0 (map (\<lambda>d. dict_get d i) ?ts))) ks ! j
          = map Inr (zip ks vs) ! j"
      by simp
  qed
  have "list_all is_dict (map (\<lambda>row. PyDict (zip ks row)) rs)"
    by (simp add: list_all_iff)
  from data_merge_dict [OF this, of cat axis "zip ks r"]
  have "data_merge cat axis ?ts
        = map_sum id PyDict
            (collect (map (\<lambda>i. map_sum id (Pair i) (data_merge cat 0 (map (\<lambda>d. dict_get d i) ?ts))) ?idx))"
    unfolding rows list.map .
  also have "\<dots> = Inr (PyDict (zip ks vs))"
    unfolding idx results collect_map_Inr by simp
  finally show ?thesis .
qed

section \<open>Splitting a tree and merging the batches\<close>

lemma data_generator_PyList:
  "fst (data_generator f (PyList xs)) = map PyList (zip_star (map (\<lambda>x. fst (data_generator f x)) xs))"
  "snd (data_generator f (PyList xs)) = snd (zip_gens (map (data_generator f) xs))"
  by (simp_all add: map_gen_def fst_zip_gens comp_def)

lemma data_generator_PyTuple:
  "fst (data_generator f (PyTuple xs)) = map PyTuple (zip_star (map (\<lambda>x. fst (data_generator f x)) xs))"
  "snd (data_generator f (PyTuple xs)) = snd (zip_gens (map (data_generator f) xs))"
  by (simp_all add: map_gen_def fst_zip_gens comp_def)

lemma data_generator_PyDict:
  "fst (data_generator f (PyDict kvs)) =
     map (\<lambda>row. PyDict (zip (map fst kvs) row))
       (zip_star (map (\<lambda>kv. fst (data_generator f (snd kv))) kvs))"
  "snd (data_generator f (PyDict kvs)) = snd (zip_gens (map (\<lambda>kv. data_generator f (snd kv)) kvs))"
  by (simp_all add: map_gen_def fst_zip_gens comp_def)

lemma leaf_values_Leaf: "leaf_values (map Leaf ys) = ys"
  by (induction ys) auto

lemma data_merge_leaves:
  "ys \<noteq> [] \<Longrightarrow> data_merge cat axis (map Leaf ys) = map_sum id Leaf (cat axis ys)"
  by (cases ys) (auto simp: list_all_iff leaf_values_Leaf)

text \<open>
  The round trip for any leaf generator \<open>f\<close> and concatenation \<open>cat\<close> that fit together:
  every leaf yields the same number of pieces, at least one, and ends normally, and
  concatenating the pieces of a leaf along axis \<open>0\<close> gives the leaf.
\<close>

lemma split_merge_tree:
  assumes "\<forall>a \<in> set (leaves t). snd (f a) = None \<and> length (fst (f a)) = m \<and> cat 0 (fst (f a)) = Inr a"
    and "0 < m" and "wf_tree t" and "nonempty_containers t"
  shows "snd (data_generator f t) = None \<and> length (fst (data_generator f t)) = m \<and>
         data_merge cat 0 (fst (data_generator f t)) = Inr t"
  using assms
proof (induction t)
  case (Leaf a)
  then have "fst (f a) \<noteq> []" by auto
  with Leaf show ?case
    by (simp add: map_gen_def data_merge_leaves del: data_merge.simps)
next
  case (PyList xs)
  let ?cols = "map (\<lambda>x. fst (data_generator f x)) xs"
  have child: "snd (data_generator f x) = None \<and> length (fst (data_generator f x)) = m \<and>
               data_merge cat 0 (fst (data_generator f x)) = Inr x" if "x \<in> set xs" for x
    using that PyList.prems by (intro PyList.IH) (auto simp: list_all_iff)
  from PyList.prems have ne: "?cols \<noteq> []" by simp
  from child have lens: "\<forall>c \<in> set ?cols. length c = m" by auto
  from child have merged: "map (data_merge cat 0) ?cols = map Inr xs" by simp
  have "snd (data_generator f (PyList xs)) = None"
    unfolding data_generator_PyList using child by (intro snd_zip_gens_None) auto
  moreover have "length (fst (data_generator f (PyList xs))) = m"
    unfolding data_generator_PyList using rows_of_columns(1) [OF ne lens] by simp
  moreover have "data_merge cat 0 (fst (data_generator f (PyList xs))) = Inr (PyList xs)"
    unfolding data_generator_PyList
    by (rule merge_list_rows [OF ne lens \<open>0 < m\<close> merged])
  ultimately show ?case by blast
next
  case (PyTuple xs)
  let ?cols = "map (\<lambda>x. fst (data_generator f x)) xs"
  have child: "snd (data_generator f x) = None \<and> length (fst (data_generator f x)) = m \<and>
               data_merge cat 0 (fst (data_generator f x)) = Inr x" if "x \<in> set xs" for x
    using that PyTuple.prems by (intro PyTuple.IH) (auto simp: list_all_iff)
  from PyTuple.prems have ne: "?cols \<noteq> []" by simp
  from child have lens: "\<forall>c \<in> set ?cols. length c = m" by auto
  from child have merged: "map (data_merge cat 0) ?cols = map Inr xs" by simp
  have "snd (data_generator f (PyTuple xs)) = None"
    unfolding data_generator_PyTuple using child by (intro snd_zip_gens_None) auto
  moreover have "length (fst (data_generator f (PyTuple xs))) = m"
    unfolding data_generator_PyTuple using rows_of_columns(1) [OF ne lens] by simp
  moreover have "data_merge cat 0 (fst (data_generator f (PyTuple xs))) = Inr (PyTuple xs)"
    unfolding data_generator_PyTuple
    by (rule merge_tuple_rows [OF ne lens \<open>0 < m\<close> merged])
  ultimately show ?case by blast
next
  case (PyDict kvs)
  let ?cols = "map (\<lambda>kv. fst (data_generator f (snd kv))) kvs"
  have child: "snd (data_generator f (snd kv)) = None \<and> length (fst (data_generator f (snd kv))) = m \<and>
               data_merge cat 0 (fst (data_generator f (snd kv))) = Inr (snd kv)" if "kv \<in> set kvs" for kv
  proof (rule PyDict.IH [of kv "snd kv"])
    show "kv \<in> set kvs" by (rule that)
    show "snd kv \<in> Basic_BNFs.snds kv" by (simp add: snds.simps)
    show "\<forall>a \<in> set (leaves (snd kv)). snd (f a) = None \<and> length (fst (f a)) = m \<and> cat 0 (fst (f a)) = Inr a"
      using that PyDict.prems(1) by auto
    show "0 < m" by (rule PyDict.prems(2))
    show "wf_tree (snd kv)" using that PyDict.prems(3) by (auto simp: list_all_iff)
    show "nonempty_containers (snd kv)" using that PyDict.prems(4) by (auto simp: list_all_iff)
  qed
  from PyDict.prems have ne: "?cols \<noteq> []" by simp
  from child have lens: "\<forall>c \<in> set ?cols. length c = m" by auto
  from child have merged: "map (data_merge cat 0) ?cols = map Inr (map snd kvs)" by simp
  from PyDict.prems have dist: "distinct (map fst kvs)" by simp
  have len: "length (map fst kvs) = length ?cols" by simp
  have "snd (data_generator f (PyDict kvs)) = None"
    unfolding data_generator_PyDict using child by (intro snd_zip_gens_None) auto
  moreover have "length (fst (data_generator f (PyDict kvs))) = m"
    unfolding data_generator_PyDict using rows_of_columns(1) [OF ne lens] by simp
  moreover have "data_merge cat 0 (fst (data_generator f (PyDict kvs))) = Inr (PyDict kvs)"
    unfolding data_generator_PyDict
    using merge_dict_rows [OF ne lens \<open>0 < m\<close> dist len merged, of 0]
    by (simp add: zip_map_fst_snd del: data_merge.simps)
  ultimately show ?case by blast
qed

section \<open>Slicing an array and concatenating the slices\<close>

lemma range_from_stop: "\<not> (0 < step \<and> i < n) \<Longrightarrow> range_from i n step = []"
  by (subst range_from.simps) simp

lemma range_from_step:
  "0 < step \<Longrightarrow> i < n \<Longrightarrow> range_from i n step = i # range_from (i + step) n step"
  by (subst range_from.simps) simp

lemma range_from_below: "j \<in> set (range_from i n step) \<Longrightarrow> j < n"
proof (induction i n step rule: range_from.induct)
  case (1 i n step)
  show ?case
  proof (cases "0 < step \<and> i < n")
    case True
    with "1.prems" have "j = i \<or> j \<in> set (range_from (i + step) n step)"
      by (simp add: range_from_step)
    with True "1.IH" show ?thesis by auto
  next
    case False
    with "1.prems" show ?thesis by (simp add: range_from_stop)
  qed
qed

lemma concat_slices:
  "0 < step \<Longrightarrow>
   concat (map (\<lambda>i. py_slice i (min (i + step) (length xs)) xs) (range_from i (length xs) step))
   = drop i xs"
proof (induction i "length xs" step rule: range_from.induct)
  case (1 i step)
  show ?case
  proof (cases "i < length xs")
    case True
    with "1.prems" "1.hyps"
    have rest: "concat (map (\<lambda>i. py_slice i (min (i + step) (length xs)) xs)
                   (range_from (i + step) (length xs) step)) = drop (i + step) xs"
      by simp
    have "py_slice i (min (i + step) (length xs)) xs @ drop (i + step) xs = drop i xs"
    proof (cases "i + step \<le> length xs")
      case True
      then have "py_slice i (min (i + step) (length xs)) xs = take step (drop i xs)"
        by (simp add: py_slice_def min_def)
      moreover have "drop (i + step) xs = drop step (drop i xs)"
        by (simp add: add.commute)
      ultimately show ?thesis by (simp only: append_take_drop_id)
    next
      case False
      then show ?thesis by (simp add: py_slice_def min_def)
    qed
    with True "1.prems" rest show ?thesis
      by (simp add: range_from_step)
  next
    case False
    then show ?thesis by (simp add: range_from_stop)
  qed
qed

lemma slice_nonempty:
  "0 < step \<Longrightarrow> i < length xs \<Longrightarrow> py_slice i (min (i + step) (length xs)) xs \<noteq> []"
  by (simp add: py_slice_def min_def)

lemma set_py_slice: "set (py_slice i j xs) \<subseteq> set xs"
  unfolding py_slice_def by (meson set_take_subset set_drop_subset subset_trans)

lemma shape_Array: "ys \<noteq> [] \<Longrightarrow> shape (Array ys) = length ys # shape (hd ys)"
  by (cases ys) auto

lemma shape_0_Array: "py_getitem (shape (Array xs)) 0 = Inr (length xs)"
  by (cases xs) (simp_all add: py_getitem_def)

lemma leaf_data_split_Array:
  "0 < batch_size \<Longrightarrow>
   leaf_data_split (Array xs) batch_size 0 =
     (map (\<lambda>i. Array (py_slice i (min (i + nat batch_size) (length xs)) xs))
        (range_from 0 (length xs) (nat batch_size)), None)"
  by (simp add: leaf_data_split_def shape_0_Array py_range_def)

lemma tf_concat_slices:
  assumes "regular (Array xs)" and "xs \<noteq> []" and "0 < step"
  shows "tf_concat 0 (map (\<lambda>i. Array (py_slice i (min (i + step) (length xs)) xs))
                        (range_from 0 (length xs) step)) = Inr (Array xs)"
proof -
  let ?sl = "\<lambda>i. py_slice i (min (i + step) (length xs)) xs"
  let ?starts = "range_from 0 (length xs) step"
  have sh: "shape (Array (?sl i)) = length (?sl i) # shape (hd xs)" if "i \<in> set ?starts" for i
  proof -
    from that have "i < length xs" by (rule range_from_below)
    with assms(3) have ne: "?sl i \<noteq> []" by (rule slice_nonempty)
    then have "hd (?sl i) \<in> set xs"
      using set_py_slice [of i "min (i + step) (length xs)" xs] by (meson hd_in_set subsetD)
    with assms(1) have "shape (hd (?sl i)) = shape (hd xs)"
      by (simp add: list_all_iff)
    with ne show ?thesis by (simp add: shape_Array)
  qed
  from assms(2,3) have starts: "?starts = 0 # range_from step (length xs) step"
    using range_from_step [of step 0 "length xs"] by simp
  have ok: "list_all (\<lambda>b. length (shape b) = length (shape (Array (?sl 0))) \<and>
                        drop_axis 0 (shape b) = drop_axis 0 (shape (Array (?sl 0))))
              (map (\<lambda>i. Array (?sl i)) ?starts)"
    unfolding list_all_iff
  proof
    fix b assume "b \<in> set (map (\<lambda>i. Array (?sl i)) ?starts)"
    then obtain i where i: "i \<in> set ?starts" "b = Array (?sl i)" by auto
    have "0 \<in> set ?starts" by (subst starts) simp
    from sh [OF this] sh [OF i(1)] i(2)
    show "length (shape b) = length (shape (Array (?sl 0))) \<and>
          drop_axis 0 (shape b) = drop_axis 0 (shape (Array (?sl 0)))"
      by (simp add: drop_axis_def)
  qed
  have "0 \<in> set ?starts" by (subst starts) simp
  from sh [OF this] have rank: "0 < length (shape (Array (?sl 0)))" by simp
  have "tf_concat 0 (map (\<lambda>i. Array (?sl i)) ?starts)
        = Inr (concat_axis 0 (map (\<lambda>i. Array (?sl i)) ?starts))"
  proof -
    have "map (\<lambda>i. Array (?sl i)) ?starts
          = Array (?sl 0) # map (\<lambda>i. Array (?sl i)) (range_from step (length xs) step)"
      by (subst starts) simp
    with ok rank show ?thesis
      by (simp add: tf_concat_def)
  qed
  also have "concat_axis 0 (map (\<lambda>i. Array (?sl i)) ?starts) = Array (concat (map ?sl ?starts))"
    by (simp add: comp_def)
  also have "concat (map ?sl ?starts) = xs"
    using concat_slices [OF assms(3), of xs 0] by simp
  finally show ?thesis .
qed

section \<open>The round trip of \<open>data_split\<close> and \<open>data_merge\<close>\<close>

lemma has_extent_Array: "has_extent n a \<Longrightarrow> \<exists>xs. a = Array xs \<and> length xs = n \<and> regular (Array xs)"
  by (cases a) auto

text \<open>
  C1 as the claim states it fails for a tree with an empty container: the empty list
  yields no batch, so the whole tree yields none, and \<open>data_merge\<close> without arguments
  ends with \<open>IndexError\<close> at \<open>data[0]\<close>. Every leaf of the tree has extent two, and the
  batch size is one.
\<close>

theorem split_merge_empty_container_counterexample:
  "list_all (has_extent 2)
     (leaves (PyDict [(KStr ''a'', Leaf (Array [Scalar (1::int), Scalar 2])), (KStr ''b'', PyList [])])) \<and>
   py_list (data_split
     (PyDict [(KStr ''a'', Leaf (Array [Scalar (1::int), Scalar 2])), (KStr ''b'', PyList [])]) 1 0)
   = Inr [] \<and>
   data_merge tf_concat 0 ([] :: int ndarray tree list) = Inl IndexError"
  by (simp add: py_list_def data_split_def map_gen_def zip_gens.simps leaf_data_split_def
      py_getitem_def py_range_def range_from.simps)

text \<open>
  C1, amended. For a tree without an empty container whose leaves are arrays of extent
  \<open>n\<close> along the batch axis, and a batch size \<open>b\<close> with \<open>1 \<le> b \<le> n\<close> (one batch when
  \<open>b = n\<close>, \<open>n\<close> batches of one when \<open>b = 1\<close>, a short last batch when \<open>b\<close> does not divide
  \<open>n\<close>), \<open>data_split\<close> yields at least one batch and ends normally, and merging the
  batches along axis \<open>0\<close> gives the tree back. The result is equal to the tree as Python
  compares dicts, without regard to the order of the keys. The tree is a Python value:
  the keys of each of its dicts are distinct (\<open>wf_tree\<close>) and its arrays are rectangular
  (\<open>has_extent\<close>).
\<close>

theorem split_merge_round_trip:
  assumes "wf_tree t" and "nonempty_containers t"
    and "list_all (has_extent n) (leaves t)"
    and "1 \<le> b" and "b \<le> int n"
  shows "\<exists>ts. py_list (data_split t b 0) = Inr ts \<and> ts \<noteq> [] \<and> data_merge tf_concat 0 ts = Inr t"
proof -
  let ?f = "\<lambda>dat. leaf_data_split dat b 0"
  let ?m = "length (range_from 0 n (nat b))"
  from assms(4,5) have n: "0 < n" and b: "0 < nat b" "0 < b" by auto
  then have m: "0 < ?m"
    using range_from_step [of "nat b" 0 n] by simp
  have leaf: "\<forall>a \<in> set (leaves t). snd (?f a) = None \<and> length (fst (?f a)) = ?m \<and>
                tf_concat 0 (fst (?f a)) = Inr a"
  proof
    fix a assume "a \<in> set (leaves t)"
    with assms(3) have "has_extent n a" by (simp add: list_all_iff)
    then obtain xs where a: "a = Array xs" "length xs = n" "regular (Array xs)"
      using has_extent_Array by blast
    with n have "xs \<noteq> []" by auto
    from tf_concat_slices [OF a(3) this b(1)] a(1,2) b(2)
    show "snd (?f a) = None \<and> length (fst (?f a)) = ?m \<and> tf_concat 0 (fst (?f a)) = Inr a"
      by (simp add: leaf_data_split_Array)
  qed
  from split_merge_tree [where f = ?f and cat = tf_concat and m = ?m, OF leaf m assms(1,2)]
  have "snd (data_split t b 0) = None" and "length (fst (data_split t b 0)) = ?m"
    and "data_merge tf_concat 0 (fst (data_split t b 0)) = Inr t"
    unfolding data_split_def by blast+
  with m have "py_list (data_split t b 0) = Inr (fst (data_split t b 0))
               \<and> fst (data_split t b 0) \<noteq> []
               \<and> data_merge tf_concat 0 (fst (data_split t b 0)) = Inr t"
    by (auto simp: py_list_def)
  then show ?thesis by blast
qed

theorem split_merge_round_trip_witness:
  "wf_tree (PyDict [(KStr ''p'', Leaf (Array [Array [Scalar (1::int), Scalar 2], Array [Scalar 3, Scalar 4],
                                              Array [Scalar 5, Scalar 6]])),
                    (KStr ''m'', PyList [Leaf (Array [Scalar 7, Scalar 8, Scalar 9])])]) \<and>
   nonempty_containers
           (PyDict [(KStr ''p'', Leaf (Array [Array [Scalar (1::int), Scalar 2], Array [Scalar 3, Scalar 4],
                                              Array [Scalar 5, Scalar 6]])),
                    (KStr ''m'', PyList [Leaf (Array [Scalar 7, Scalar 8, Scalar 9])])]) \<and>
   list_all (has_extent 3)
     (leaves (PyDict [(KStr ''p'', Leaf (Array [Array [Scalar (1::int), Scalar 2], Array [Scalar 3, Scalar 4],
                                              Array [Scalar 5, Scalar 6]])),
                    (KStr ''m'', PyList [Leaf (Array [Scalar 7, Scalar 8, Scalar 9])])])) \<and>
   (\<exists>ts. py_list (data_split
           (PyDict [(KStr ''p'', Leaf (Array [Array [Scalar (1::int), Scalar 2], Array [Scalar 3, Scalar 4],
                                              Array [Scalar 5, Scalar 6]])),
                    (KStr ''m'', PyList [Leaf (Array [Scalar 7, Scalar 8, Scalar 9])])]) 2 0) = Inr ts \<and>
         ts \<noteq> [] \<and>
         data_merge tf_concat 0 ts
         = Inr (PyDict [(KStr ''p'', Leaf (Array [Array [Scalar (1::int), Scalar 2], Array [Scalar 3, Scalar 4],
                                              Array [Scalar 5, Scalar 6]])),
                    (KStr ''m'', PyList [Leaf (Array [Scalar 7, Scalar 8, Scalar 9])])]))"
  using split_merge_round_trip
    [of "PyDict [(KStr ''p'', Leaf (Array [Array [Scalar (1::int), Scalar 2], Array [Scalar 3, Scalar 4],
                                              Array [Scalar 5, Scalar 6]])),
                    (KStr ''m'', PyList [Leaf (Array [Scalar 7, Scalar 8, Scalar 9])])]" 3 2]
  by simp

section \<open>The number of batches of \<open>data_split\<close> and the sizes of the slices\<close>

lemma length_zip_star_map:
  "xs \<noteq> [] \<Longrightarrow> length (zip_star (map g xs)) = Min (set (map (\<lambda>x. length (g x)) xs))"
  using zip_star_length [of "map g xs"] by (simp add: image_image)

lemma length_data_generator:
  "length (fst (data_generator f t)) = batch_count (\<lambda>a. length (fst (f a))) t"
proof (induction t)
  case (PyDict kvs)
  show ?case
  proof (cases "kvs = []")
    case True
    then show ?thesis by (simp add: map_gen_def zip_gens.simps)
  next
    case False
    have eq: "map (\<lambda>kv. length (fst (data_generator f (snd kv)))) kvs
          = map (\<lambda>kv. batch_count (\<lambda>a. length (fst (f a))) (snd kv)) kvs"
      using PyDict by (intro map_cong) (auto simp: snds.simps)
    have "length (fst (data_generator f (PyDict kvs)))
          = length (zip_star (map (\<lambda>kv. fst (data_generator f (snd kv))) kvs))"
      unfolding data_generator_PyDict(1) by simp
    also have "\<dots> = Min (set (map (\<lambda>kv. length (fst (data_generator f (snd kv)))) kvs))"
      using False by (rule length_zip_star_map)
    also have "\<dots> = batch_count (\<lambda>a. length (fst (f a))) (PyDict kvs)"
      using False by (simp only: eq batch_count.simps if_False)
    finally show ?thesis .
  qed
next
  case (PyList xs)
  show ?case
  proof (cases "xs = []")
    case True
    then show ?thesis by (simp add: map_gen_def zip_gens.simps)
  next
    case False
    have eq: "map (\<lambda>x. length (fst (data_generator f x))) xs
          = map (batch_count (\<lambda>a. length (fst (f a)))) xs"
      using PyList by (intro map_cong) (auto simp: snds.simps)
    have "length (fst (data_generator f (PyList xs)))
          = length (zip_star (map (\<lambda>x. fst (data_generator f x)) xs))"
      unfolding data_generator_PyList(1) by simp
    also have "\<dots> = Min (set (map (\<lambda>x. length (fst (data_generator f x))) xs))"
      using False by (rule length_zip_star_map)
    also have "\<dots> = batch_count (\<lambda>a. length (fst (f a))) (PyList xs)"
      using False by (simp only: eq batch_count.simps if_False)
    finally show ?thesis .
  qed
next
  case (PyTuple xs)
  show ?case
  proof (cases "xs = []")
    case True
    then show ?thesis by (simp add: map_gen_def zip_gens.simps)
  next
    case False
    have eq: "map (\<lambda>x. length (fst (data_generator f x))) xs
          = map (batch_count (\<lambda>a. length (fst (f a)))) xs"
      using PyTuple by (intro map_cong) (auto simp: snds.simps)
    have "length (fst (data_generator f (PyTuple xs)))
          = length (zip_star (map (\<lambda>x. fst (data_generator f x)) xs))"
      unfolding data_generator_PyTuple(1) by simp
    also have "\<dots> = Min (set (map (\<lambda>x. length (fst (data_generator f x))) xs))"
      using False by (rule length_zip_star_map)
    also have "\<dots> = batch_count (\<lambda>a. length (fst (f a))) (PyTuple xs)"
      using False by (simp only: eq batch_count.simps if_False)
    finally show ?thesis .
  qed
next
  case (Leaf a)
  show ?case by (simp add: map_gen_def)
qed

lemma leaves_nonempty: "nonempty_containers t \<Longrightarrow> leaves t \<noteq> []"
proof (induction t)
  case (PyDict kvs)
  then obtain kv where kv: "kv \<in> set kvs" by (cases kvs) auto
  with PyDict have "leaves (snd kv) \<noteq> []" by (auto simp: list_all_iff snds.simps)
  then obtain a where "a \<in> set (leaves (snd kv))" by (cases "leaves (snd kv)") auto
  with kv have "a \<in> set (leaves (PyDict kvs))" by auto
  then show ?case by (auto simp del: leaves.simps)
next
  case (PyList xs)
  then obtain x where x: "x \<in> set xs" by (cases xs) auto
  with PyList have "leaves x \<noteq> []" by (auto simp: list_all_iff)
  then obtain a where "a \<in> set (leaves x)" by (cases "leaves x") auto
  with x have "a \<in> set (leaves (PyList xs))" by auto
  then show ?case by (auto simp del: leaves.simps)
next
  case (PyTuple xs)
  then obtain x where x: "x \<in> set xs" by (cases xs) auto
  with PyTuple have "leaves x \<noteq> []" by (auto simp: list_all_iff)
  then obtain a where "a \<in> set (leaves x)" by (cases "leaves x") auto
  with x have "a \<in> set (leaves (PyTuple xs))" by auto
  then show ?case by (auto simp del: leaves.simps)
next
  case (Leaf a)
  show ?case by simp
qed

lemma Min_concat:
  fixes xss :: "nat list list"
  shows "xss \<noteq> [] \<Longrightarrow> \<forall>xs \<in> set xss. xs \<noteq> [] \<Longrightarrow>
         Min (set (concat xss)) = Min (set (map (\<lambda>xs. Min (set xs)) xss))"
proof (induction xss)
  case Nil
  then show ?case by simp
next
  case (Cons xs xss)
  show ?case
  proof (cases "xss = []")
    case True
    then show ?thesis by simp
  next
    case False
    with Cons have IH: "Min (set (concat xss)) = Min (set (map (\<lambda>xs. Min (set xs)) xss))"
      by simp
    from False obtain ys where ys: "ys \<in> set xss" by (cases xss) auto
    with Cons.prems obtain y where "y \<in> set ys" by (cases ys) auto
    with ys have "y \<in> set (concat xss)" by auto
    with Cons.prems have ne: "set (concat xss) \<noteq> {}" "set xs \<noteq> {}"
      by auto
    then have "Min (set (concat (xs # xss))) = min (Min (set xs)) (Min (set (concat xss)))"
      by (simp add: Min_Un del: set_concat)
    also from False have "\<dots> = Min (set (map (\<lambda>xs. Min (set xs)) (xs # xss)))"
      unfolding IH by simp
    finally show ?thesis .
  qed
qed

lemma batch_count_leaves:
  "nonempty_containers t \<Longrightarrow> batch_count c t = Min (set (map c (leaves t)))"
proof (induction t)
  case (PyDict kvs)
  have child: "batch_count c (snd kv) = Min (set (map c (leaves (snd kv))))" if "kv \<in> set kvs" for kv
    using that PyDict by (auto simp: list_all_iff snds.simps)
  have "Min (set (concat (map (\<lambda>kv. map c (leaves (snd kv))) kvs)))
        = Min (set (map (\<lambda>xs. Min (set xs)) (map (\<lambda>kv. map c (leaves (snd kv))) kvs)))"
    using PyDict.prems by (intro Min_concat) (auto simp: list_all_iff leaves_nonempty)
  also have "map (\<lambda>xs. Min (set xs)) (map (\<lambda>kv. map c (leaves (snd kv))) kvs)
             = map (\<lambda>kv. batch_count c (snd kv)) kvs"
    using child by (simp del: set_map)
  finally show ?case
    using PyDict.prems by (simp add: map_concat comp_def del: set_map set_concat)
next
  case (PyList xs)
  have child: "batch_count c x = Min (set (map c (leaves x)))" if "x \<in> set xs" for x
    using that PyList by (auto simp: list_all_iff)
  have "Min (set (concat (map (\<lambda>x. map c (leaves x)) xs)))
        = Min (set (map (\<lambda>xs. Min (set xs)) (map (\<lambda>x. map c (leaves x)) xs)))"
    using PyList.prems by (intro Min_concat) (auto simp: list_all_iff leaves_nonempty)
  also have "map (\<lambda>xs. Min (set xs)) (map (\<lambda>x. map c (leaves x)) xs) = map (batch_count c) xs"
    using child by (simp del: set_map)
  finally show ?case
    using PyList.prems by (simp add: map_concat comp_def del: set_map set_concat)
next
  case (PyTuple xs)
  have child: "batch_count c x = Min (set (map c (leaves x)))" if "x \<in> set xs" for x
    using that PyTuple by (auto simp: list_all_iff)
  have "Min (set (concat (map (\<lambda>x. map c (leaves x)) xs)))
        = Min (set (map (\<lambda>xs. Min (set xs)) (map (\<lambda>x. map c (leaves x)) xs)))"
    using PyTuple.prems by (intro Min_concat) (auto simp: list_all_iff leaves_nonempty)
  also have "map (\<lambda>xs. Min (set xs)) (map (\<lambda>x. map c (leaves x)) xs) = map (batch_count c) xs"
    using child by (simp del: set_map)
  finally show ?case
    using PyTuple.prems by (simp add: map_concat comp_def del: set_map set_concat)
next
  case (Leaf a)
  show ?case by simp
qed

lemma batch_count_empty: "\<not> nonempty_containers t \<Longrightarrow> batch_count c t = 0"
proof (induction t)
  case (PyDict kvs)
  show ?case
  proof (cases "kvs = []")
    case True
    then show ?thesis by simp
  next
    case False
    with PyDict.prems obtain kv where kv: "kv \<in> set kvs" "\<not> nonempty_containers (snd kv)"
      by (auto simp: list_all_iff)
    with PyDict.IH have "batch_count c (snd kv) = 0" by (auto simp: snds.simps)
    with kv have "0 \<in> set (map (\<lambda>kv. batch_count c (snd kv)) kvs)" by force
    then have "Min (set (map (\<lambda>kv. batch_count c (snd kv)) kvs)) \<le> 0"
      by (intro Min_le) auto
    with False show ?thesis by simp
  qed
next
  case (PyList xs)
  show ?case
  proof (cases "xs = []")
    case True
    then show ?thesis by simp
  next
    case False
    with PyList.prems obtain x where x: "x \<in> set xs" "\<not> nonempty_containers x"
      by (auto simp: list_all_iff)
    with PyList.IH have "batch_count c x = 0" by auto
    with x have "0 \<in> set (map (batch_count c) xs)" by force
    then have "Min (set (map (batch_count c) xs)) \<le> 0"
      by (intro Min_le) auto
    with False show ?thesis by simp
  qed
next
  case (PyTuple xs)
  show ?case
  proof (cases "xs = []")
    case True
    then show ?thesis by simp
  next
    case False
    with PyTuple.prems obtain x where x: "x \<in> set xs" "\<not> nonempty_containers x"
      by (auto simp: list_all_iff)
    with PyTuple.IH have "batch_count c x = 0" by auto
    with x have "0 \<in> set (map (batch_count c) xs)" by force
    then have "Min (set (map (batch_count c) xs)) \<le> 0"
      by (intro Min_le) auto
    with False show ?thesis by simp
  qed
next
  case (Leaf a)
  then show ?case by simp
qed

lemma snd_data_generator_None:
  "\<forall>a \<in> set (leaves t). snd (f a) = None \<Longrightarrow> snd (data_generator f t) = None"
proof (induction t)
  case (PyDict kvs)
  then show ?case
    unfolding data_generator_PyDict by (intro snd_zip_gens_None) (auto simp: snds.simps)
next
  case (PyList xs)
  then show ?case
    unfolding data_generator_PyList by (intro snd_zip_gens_None) auto
next
  case (PyTuple xs)
  then show ?case
    unfolding data_generator_PyTuple by (intro snd_zip_gens_None) auto
next
  case (Leaf a)
  then show ?case by (simp add: map_gen_def)
qed


lemma count_step:
  fixes i n s :: nat
  assumes "0 < s" and "i < n"
  shows "(n - i + s - 1) div s = Suc ((n - (i + s) + s - 1) div s)"
proof (cases "i + s \<le> n")
  case True
  define a where "a = n - (i + s) + s - 1"
  from True assms have "n - i + s - 1 = a + s"
    unfolding a_def by simp
  then have "(n - i + s - 1) div s = (a + s) div s" by simp
  also have "\<dots> = Suc (a div s)"
    using assms(1) div_add_self2 [of s a] by simp
  finally show ?thesis unfolding a_def .
next
  case False
  define c where "c = n - i - 1"
  from False assms have c: "c < s" and l: "n - i + s - 1 = c + s" and r: "n - (i + s) + s - 1 = s - 1"
    unfolding c_def by simp_all
  from c assms(1) have "(c + s) div s = Suc 0"
    using div_add_self2 [of s c] by simp
  moreover from assms(1) have "(s - 1) div s = 0" by simp
  ultimately show ?thesis
    unfolding l r by simp
qed

lemma range_from_eq:
  "0 < s \<Longrightarrow> range_from i n s = map (\<lambda>k. i + k * s) [0..<(n - i + s - 1) div s]"
proof (induction i n s rule: range_from.induct)
  case (1 i n s)
  show ?case
  proof (cases "i < n")
    case True
    let ?c = "(n - (i + s) + s - 1) div s"
    from True "1.prems" "1.IH" have "range_from (i + s) n s = map (\<lambda>k. i + s + k * s) [0..<?c]"
      by simp
    with True "1.prems" have "range_from i n s = i # map (\<lambda>k. i + s + k * s) [0..<?c]"
      by (simp add: range_from_step)
    also have "i # map (\<lambda>k. i + s + k * s) [0..<?c] = map (\<lambda>k. i + k * s) [0..<Suc ?c]"
      by (simp add: upt_conv_Cons map_Suc_upt [symmetric] del: upt_Suc) 
    finally show ?thesis
      using count_step [OF "1.prems" True] by simp
  next
    case False
    with "1.prems" have "(n - i + s - 1) div s = 0" by simp
    with False show ?thesis by (simp add: range_from_stop)
  qed
qed

lemma py_slice_take: "py_slice i (min (i + s) (length xs)) xs = take s (drop i xs)"
  by (simp add: py_slice_def min_def)

lemma leaf_slices:
  assumes "0 < b"
  shows "fst (leaf_data_split (Array xs) b 0)
         = map (\<lambda>k. Array (take (nat b) (drop (k * nat b) xs))) [0..<(length xs + nat b - 1) div nat b]"
    and "snd (leaf_data_split (Array xs) b 0) = None"
  using assms by (simp_all add: leaf_data_split_Array range_from_eq py_slice_take comp_def)

lemma below_count:
  fixes k n s :: nat
  assumes "0 < s"
  shows "k < (n + s - 1) div s \<longleftrightarrow> k * s < n"
proof -
  have "k < (n + s - 1) div s \<longleftrightarrow> Suc k \<le> (n + s - 1) div s" by auto
  also have "\<dots> \<longleftrightarrow> Suc k * s \<le> n + s - 1"
    using assms by (simp only: less_eq_div_iff_mult_less_eq)
  also have "\<dots> \<longleftrightarrow> k * s < n"
    using assms by auto
  finally show ?thesis .
qed

text \<open>
  C6 as the claim states it fails for a tree with an empty container: the leaves yield
  three slices and one slice, and the tree yields no sub-tree.
\<close>

theorem data_split_empty_container_counterexample:
  "length (fst (data_split
      (PyList [Leaf (Array [Scalar (1::int), Scalar 2, Scalar 3]), Leaf (Array [Scalar 4]), PyList []]) 1 0))
   \<noteq> Min (set (map (slice_count 1)
        (leaves (PyList [Leaf (Array [Scalar (1::int), Scalar 2, Scalar 3]), Leaf (Array [Scalar 4]),
                         PyList []]))))"
proof -
  have "slice_count 1 (Array [Scalar (1::int), Scalar 2, Scalar 3]) = 3"
    and "slice_count 1 (Array [Scalar (4::int)]) = 1"
    by (simp_all add: slice_count_def leaf_slices)
  moreover have "length (fst (data_split
      (PyList [Leaf (Array [Scalar (1::int), Scalar 2, Scalar 3]), Leaf (Array [Scalar 4]), PyList []]) 1 0))
    = 0"
    unfolding data_split_def length_data_generator by (simp del: set_map)
  ultimately show ?thesis by simp
qed

text \<open>
  C6, amended. For a positive batch size and a tree whose leaves are arrays with a batch
  axis, \<open>data_split\<close> ends normally and yields as many sub-trees as the leaf with the
  fewest slices yields slices, whether the extents of the leaves differ or not, provided
  that no container of the tree is empty; a tree with an empty container yields no
  sub-tree. An array of extent \<open>n\<close> yields \<open>\<lceil>n / b\<rceil>\<close> slices; slice \<open>k\<close> holds the entries
  from \<open>k * b\<close> on, \<open>b\<close> of them for every slice but the last, and the last slice the
  remaining ones, at least one and at most \<open>b\<close>, without padding.
\<close>

theorem data_split_batches:
  assumes "0 < b" and "list_all has_batch_axis (leaves t)"
  shows "(\<exists>ts. py_list (data_split t b 0) = Inr ts \<and>
            length ts = (if nonempty_containers t then Min (set (map (slice_count b) (leaves t))) else 0)) \<and>
         slice_count b (Array xs) = (length xs + nat b - 1) div nat b \<and>
         (\<forall>k < slice_count b (Array xs).
            fst (leaf_data_split (Array xs) b 0) ! k = Array (take (nat b) (drop (k * nat b) xs)) \<and>
            (Suc k < slice_count b (Array xs) \<longrightarrow> length (take (nat b) (drop (k * nat b) xs)) = nat b) \<and>
            (Suc k = slice_count b (Array xs) \<longrightarrow>
               length (take (nat b) (drop (k * nat b) xs)) = length xs - k * nat b \<and>
               0 < length xs - k * nat b \<and> length xs - k * nat b \<le> nat b))"
proof (intro conjI allI impI)
  let ?f = "\<lambda>dat. leaf_data_split dat b 0"
  have "snd (?f a) = None" if "a \<in> set (leaves t)" for a
  proof -
    from that assms(2) have "has_batch_axis a" by (simp add: list_all_iff)
    then obtain ys where "a = Array ys" by (cases a) auto
    with assms(1) show ?thesis by (simp add: leaf_slices)
  qed
  then have "snd (data_split t b 0) = None"
    unfolding data_split_def by (intro snd_data_generator_None) blast
  then have "py_list (data_split t b 0) = Inr (fst (data_split t b 0))"
    by (simp add: py_list_def)
  moreover have "length (fst (data_split t b 0))
        = (if nonempty_containers t then Min (set (map (slice_count b) (leaves t))) else 0)"
    unfolding data_split_def length_data_generator
    using batch_count_leaves [of t "\<lambda>a. length (fst (leaf_data_split a b 0))"]
      batch_count_empty [of t "\<lambda>a. length (fst (leaf_data_split a b 0))"]
    by (simp add: slice_count_def [abs_def] del: set_map)
  ultimately show "\<exists>ts. py_list (data_split t b 0) = Inr ts \<and>
            length ts = (if nonempty_containers t then Min (set (map (slice_count b) (leaves t))) else 0)"
    by blast
next
  show count: "slice_count b (Array xs) = (length xs + nat b - 1) div nat b"
    using assms(1) by (simp add: slice_count_def leaf_slices)
  fix k
  assume "k < slice_count b (Array xs)"
  with count have k: "k < (length xs + nat b - 1) div nat b" by simp
  from assms(1) have s: "0 < nat b" by simp
  from k show "fst (leaf_data_split (Array xs) b 0) ! k = Array (take (nat b) (drop (k * nat b) xs))"
    using assms(1) by (simp add: leaf_slices)
  from k have below: "k * nat b < length xs"
    using below_count [OF s, of k "length xs"] by blast
  {
    assume "Suc k < slice_count b (Array xs)"
    with count have "Suc k * nat b < length xs"
      using below_count [OF s, of "Suc k" "length xs"] by simp
    then show "length (take (nat b) (drop (k * nat b) xs)) = nat b"
      by simp
  }
  {
    assume "Suc k = slice_count b (Array xs)"
    with count have "\<not> Suc k < (length xs + nat b - 1) div nat b" by simp
    then have "\<not> Suc k * nat b < length xs"
      using below_count [OF s, of "Suc k" "length xs"] by blast
    with below show "length (take (nat b) (drop (k * nat b) xs)) = length xs - k * nat b"
      and "0 < length xs - k * nat b" and "length xs - k * nat b \<le> nat b"
      by simp_all
  }
qed

theorem data_split_batches_witness:
  "list_all has_batch_axis
     (leaves (PyList [Leaf (Array [Scalar (1::int), Scalar 2, Scalar 3]), Leaf (Array [Scalar 4])])) \<and>
   (\<exists>ts. py_list (data_split
            (PyList [Leaf (Array [Scalar (1::int), Scalar 2, Scalar 3]), Leaf (Array [Scalar 4])]) 2 0)
          = Inr ts \<and> length ts = 1) \<and>
   slice_count 2 (Array [Scalar (1::int), Scalar 2, Scalar 3]) = 2 \<and>
   fst (leaf_data_split (Array [Scalar (1::int), Scalar 2, Scalar 3]) 2 0) ! 1 = Array [Scalar 3]"
proof -
  let ?t = "PyList [Leaf (Array [Scalar (1::int), Scalar 2, Scalar 3]), Leaf (Array [Scalar 4])]"
  let ?xs = "[Scalar (1::int), Scalar 2, Scalar 3]"
  have leaves: "list_all has_batch_axis (leaves ?t)" by simp
  have counts: "slice_count 2 (Array ?xs) = 2" "slice_count 2 (Array [Scalar (4::int)]) = 1"
    by (simp_all add: slice_count_def leaf_slices)
  from data_split_batches [of 2 ?t ?xs] leaves counts
  have "\<exists>ts. py_list (data_split ?t 2 0) = Inr ts \<and> length ts = 1"
    and "fst (leaf_data_split (Array ?xs) 2 0) ! 1 = Array [Scalar 3]"
    by simp_all
  with leaves counts show ?thesis by blast
qed

section \<open>The operations change no object of the store\<close>
























section \<open>The containers of the returned trees are new\<close>


























lemma tf_concat_s_arrays:
  "tf_concat_s axis data h = (Inr r, h') \<Longrightarrow> length h \<le> r \<and> is_array_at h' r"
  by (auto simp: tf_concat_s_def alloc_def is_array_at_def deref_def
      split: option.splits sum.splits)





































end
